theory Spec2Isabelle
  imports Complex_Main "HOL-Library.Sublist"
begin

section \<open>Data model\<close>

text \<open>
  The reconciliation pipeline of \<^verbatim>\<open>final.py\<close> works on three tables. A row of the API
  table \<^verbatim>\<open>A0\<close>, a row of the ERP table \<^verbatim>\<open>E0\<close> and a row of the table of matches are
  records; a table is the list of its rows, in the order of the data frame. Dates are day
  ordinals, cents are Python's unbounded integers. The columns a record leaves out
  (names, descriptions, the derived float amounts) are not read by the functions below;
  \<^verbatim>\<open>api_amount\<close> and \<^verbatim>\<open>erp_amount\<close> are \<^verbatim>\<open>cents / 100\<close> by the loaders.
\<close>

record api_row =
  a_row_id :: int
  api_uid :: string
  a_tenant_id :: string
  a_bank_code :: string
  api_acc_tail :: string
  api_date :: int
  api_cents :: int
  api_is_tax :: bool
  api_is_bankfees :: bool
  api_is_rent_d1 :: bool
  api_is_rent :: bool

record erp_row =
  e_row_id :: int
  erp_uid :: string
  e_tenant_id :: string
  e_bank_code :: string
  erp_acc_tail :: string
  erp_date :: int
  erp_cents :: int

record match_row =
  api_row_id :: int
  erp_row_id :: int
  stage :: string
  prio :: int
  ddiff :: int

section \<open>The component validator\<close>

text \<open>
  \<^verbatim>\<open>finalize_by_components\<close> (final.py, lines 695 to 804). Python's \<^verbatim>\<open>dict\<close> keeps
  insertion order and the code inserts a key only when it is absent, so the two
  dictionaries \<^verbatim>\<open>comp_id_of_A\<close> and \<^verbatim>\<open>comp_id_of_E\<close> are association lists that grow
  at the end. The sets \<^verbatim>\<open>nodesA\<close>, \<^verbatim>\<open>nodesE\<close> and the adjacency sets are iterated in
  an order Python does not specify; the model takes the order of first insertion.
\<close>

datatype side = SideA | SideE

type_synonym comp_dict = "(int \<times> int) list"

definition adjA :: "(int \<times> int) list \<Rightarrow> int \<Rightarrow> int list" where
  "adjA edges a = remdups (map snd (filter (\<lambda>p. fst p = a) edges))"

definition adjE :: "(int \<times> int) list \<Rightarrow> int \<Rightarrow> int list" where
  "adjE edges e = remdups (map fst (filter (\<lambda>p. snd p = e) edges))"

definition nodesA :: "(int \<times> int) list \<Rightarrow> int list" where
  "nodesA edges = remdups (map fst edges)"

definition nodesE :: "(int \<times> int) list \<Rightarrow> int list" where
  "nodesE edges = remdups (map snd edges)"

text \<open>
  The measure of the queue loop: the nodes of the graph or of the queue that have no
  component yet, then the length of the queue.
\<close>

definition unassigned :: "(int \<times> int) list \<Rightarrow> (side \<times> int) list \<Rightarrow> comp_dict \<Rightarrow> comp_dict
    \<Rightarrow> (side \<times> int) set" where
  "unassigned edges q cA cE =
     (Pair SideA ` fst ` set edges \<union> Pair SideE ` snd ` set edges \<union> set q)
       - (Pair SideA ` fst ` set cA \<union> Pair SideE ` fst ` set cE)"

text \<open>The loop \<^verbatim>\<open>while q\<close>: one call per \<^verbatim>\<open>q.popleft()\<close>.\<close>

function bfs :: "(int \<times> int) list \<Rightarrow> int \<Rightarrow> (side \<times> int) list \<Rightarrow> comp_dict \<Rightarrow> comp_dict
    \<Rightarrow> comp_dict \<times> comp_dict" where
  "bfs edges comp_id [] cA cE = (cA, cE)"
| "bfs edges comp_id ((SideA, nid) # q) cA cE =
     (if map_of cA nid \<noteq> None then bfs edges comp_id q cA cE
      else bfs edges comp_id
             (q @ map (Pair SideE) (filter (\<lambda>e. map_of cE e = None) (adjA edges nid)))
             (cA @ [(nid, comp_id)]) cE)"
| "bfs edges comp_id ((SideE, nid) # q) cA cE =
     (if map_of cE nid \<noteq> None then bfs edges comp_id q cA cE
      else bfs edges comp_id
             (q @ map (Pair SideA) (filter (\<lambda>a. map_of cA a = None) (adjE edges nid)))
             cA (cE @ [(nid, comp_id)]))"
  by pat_completeness auto

lemma finite_unassigned: "finite (unassigned edges q cA cE)"
  by (simp add: unassigned_def)

lemma unassigned_skip:
  "unassigned edges q cA cE \<subseteq> unassigned edges (x # q) cA cE"
  by (auto simp: unassigned_def)

lemma unassigned_stepA:
  assumes "map_of cA nid = None"
  shows "unassigned edges (q @ map (Pair SideE) (filter P (adjA edges nid))) (cA @ [(nid, c)]) cE
           \<subset> unassigned edges ((SideA, nid) # q) cA cE"
proof -
  have notin: "nid \<notin> fst ` set cA"
    using assms by (simp add: map_of_eq_None_iff)
  have "(SideA, nid) \<in> unassigned edges ((SideA, nid) # q) cA cE"
    using notin by (auto simp: unassigned_def)
  moreover have "(SideA, nid) \<notin>
      unassigned edges (q @ map (Pair SideE) (filter P (adjA edges nid))) (cA @ [(nid, c)]) cE"
    by (auto simp: unassigned_def)
  moreover have "unassigned edges (q @ map (Pair SideE) (filter P (adjA edges nid)))
      (cA @ [(nid, c)]) cE \<subseteq> unassigned edges ((SideA, nid) # q) cA cE"
    by (auto simp: unassigned_def adjA_def)
  ultimately show ?thesis by blast
qed

lemma unassigned_stepE:
  assumes "map_of cE nid = None"
  shows "unassigned edges (q @ map (Pair SideA) (filter P (adjE edges nid))) cA (cE @ [(nid, c)])
           \<subset> unassigned edges ((SideE, nid) # q) cA cE"
proof -
  have notin: "nid \<notin> fst ` set cE"
    using assms by (simp add: map_of_eq_None_iff)
  have "(SideE, nid) \<in> unassigned edges ((SideE, nid) # q) cA cE"
    using notin by (auto simp: unassigned_def)
  moreover have "(SideE, nid) \<notin>
      unassigned edges (q @ map (Pair SideA) (filter P (adjE edges nid))) cA (cE @ [(nid, c)])"
    by (auto simp: unassigned_def)
  moreover have "unassigned edges (q @ map (Pair SideA) (filter P (adjE edges nid)))
      cA (cE @ [(nid, c)]) \<subseteq> unassigned edges ((SideE, nid) # q) cA cE"
    by (auto simp: unassigned_def adjE_def)
  ultimately show ?thesis by blast
qed

termination bfs
  apply (relation "(\<lambda>(edges, comp_id, q, cA, cE). card (unassigned edges q cA cE))
                   <*mlex*> measure (\<lambda>(edges, comp_id, q, cA, cE). length q)")
      apply (simp add: wf_mlex)
     apply (rule mlex_leq; simp add: card_mono finite_unassigned unassigned_skip)
    apply (rule mlex_less; simp add: psubset_card_mono finite_unassigned unassigned_stepA)
   apply (rule mlex_leq; simp add: card_mono finite_unassigned unassigned_skip)
  apply (rule mlex_less; simp add: psubset_card_mono finite_unassigned unassigned_stepE)
  done

text \<open>
  The two loops \<^verbatim>\<open>for a0 in list(nodesA)\<close> and \<^verbatim>\<open>for e0 in list(nodesE)\<close>: their
  bodies are the same text but for the side of the start node, which is the first
  argument here. The state is \<^verbatim>\<open>(comp_id_of_A, comp_id_of_E, comp_idx)\<close>.
\<close>

fun components_from :: "side \<Rightarrow> (int \<times> int) list \<Rightarrow> int list \<Rightarrow> comp_dict \<times> comp_dict \<times> int
    \<Rightarrow> comp_dict \<times> comp_dict \<times> int" where
  "components_from s edges [] st = st"
| "components_from s edges (n0 # ns) (cA, cE, comp_idx) =
     (if map_of (case s of SideA \<Rightarrow> cA | SideE \<Rightarrow> cE) n0 \<noteq> None
      then components_from s edges ns (cA, cE, comp_idx)
      else (case bfs edges comp_idx [(s, n0)] cA cE of
              (cA', cE') \<Rightarrow> components_from s edges ns (cA', cE', comp_idx + 1)))"

definition assign_components :: "(int \<times> int) list \<Rightarrow> comp_dict \<times> comp_dict \<times> int" where
  "assign_components edges =
     components_from SideE edges (nodesE edges)
       (components_from SideA edges (nodesA edges) ([], [], 0))"

text \<open>
  \<^verbatim>\<open>dict(zip(keys, values))\<close>: a later pair overwrites an earlier one with the same
  key. \<^verbatim>\<open>d.get(k, 0)\<close> is \<open>get0\<close>.
\<close>

definition dict_zip :: "'k list \<Rightarrow> 'v list \<Rightarrow> 'k \<rightharpoonup> 'v" where
  "dict_zip ks vs = map_of (rev (zip ks vs))"

definition get0 :: "('k \<rightharpoonup> int) \<Rightarrow> 'k \<Rightarrow> int" where
  "get0 d k = (case d k of Some v \<Rightarrow> v | None \<Rightarrow> 0)"

text \<open>
  \<^verbatim>\<open>sum_api\<close> and \<^verbatim>\<open>sum_erp\<close> are \<^verbatim>\<open>defaultdict(int)\<close>: a function with the
  value 0 where nothing was added. Their keys are the component ids of the dictionary
  they were filled from.
\<close>

definition sum_by_comp :: "(int \<rightharpoonup> int) \<Rightarrow> comp_dict \<Rightarrow> int \<Rightarrow> int" where
  "sum_by_comp cents comp_id_of =
     fold (\<lambda>(n, cid) acc. acc(cid := acc cid + get0 cents n)) comp_id_of (\<lambda>_. 0)"

definition valid_comp :: "(int \<rightharpoonup> int) \<Rightarrow> (int \<rightharpoonup> int) \<Rightarrow> comp_dict \<Rightarrow> comp_dict \<Rightarrow> int list" where
  "valid_comp api_map erp_map cA cE =
     filter (\<lambda>cid. sum_by_comp api_map cA cid = sum_by_comp erp_map cE cid)
       (remdups (map snd cA @ map snd cE))"

definition comp_for_edge :: "comp_dict \<Rightarrow> comp_dict \<Rightarrow> int \<times> int \<Rightarrow> int" where
  "comp_for_edge cA cE = (\<lambda>(a, e).
     case map_of cA a of Some cid \<Rightarrow> cid
     | None \<Rightarrow> (case map_of cE e of Some cid \<Rightarrow> cid | None \<Rightarrow> - 1))"

definition edges_of :: "match_row list \<Rightarrow> (int \<times> int) list" where
  "edges_of matches = map (\<lambda>m. (api_row_id m, erp_row_id m)) matches"

definition api_map_of :: "api_row list \<Rightarrow> int \<rightharpoonup> int" where
  "api_map_of A0 = dict_zip (map a_row_id A0) (map api_cents A0)"

definition erp_map_of :: "erp_row list \<Rightarrow> int \<rightharpoonup> int" where
  "erp_map_of E0 = dict_zip (map e_row_id E0) (map erp_cents E0)"

definition finalize_by_components :: "match_row list \<Rightarrow> api_row list \<Rightarrow> erp_row list
    \<Rightarrow> match_row list" where
  "finalize_by_components matches A0 E0 =
     (if matches = [] then matches
      else
        let api_map = api_map_of A0;
            erp_map = erp_map_of E0;
            edges = edges_of matches
        in case assign_components edges of
             (cA, cE, comp_idx) \<Rightarrow>
               let valid = valid_comp api_map erp_map cA cE;
                   cc_id = map (comp_for_edge cA cE) edges
               in map fst (filter (\<lambda>(m, cid). cid \<in> set valid) (zip matches cc_id)))"

subsection \<open>The graph of the candidate edges\<close>

text \<open>
  A node is a row id with its side. The bipartite graph has the edge
  \<open>((SideA, a), (SideE, e))\<close> for every candidate pair \<open>(a, e)\<close>; the connected component
  of a node is what the reflexive transitive closure of the symmetric adjacency reaches.
  \<open>cmap\<close> reads the two dictionaries as one map on nodes.
\<close>

type_synonym node = "side \<times> int"

definition adj :: "(int \<times> int) list \<Rightarrow> (node \<times> node) set" where
  "adj edges = {((SideA, a), (SideE, e)) | a e. (a, e) \<in> set edges}"

definition sym_adj :: "(int \<times> int) list \<Rightarrow> (node \<times> node) set" where
  "sym_adj edges = adj edges \<union> (adj edges)\<inverse>"

definition component :: "(int \<times> int) list \<Rightarrow> node \<Rightarrow> node set" where
  "component edges x = {y. (x, y) \<in> (sym_adj edges)\<^sup>*}"

definition cmap :: "comp_dict \<Rightarrow> comp_dict \<Rightarrow> node \<Rightarrow> int option" where
  "cmap cA cE = (\<lambda>(s, n). case s of SideA \<Rightarrow> map_of cA n | SideE \<Rightarrow> map_of cE n)"

lemma sym_sym_adj: "sym (sym_adj edges)"
  by (simp add: sym_adj_def sym_Un_converse)

lemma sym_adj_A: "((SideA, a), y) \<in> sym_adj edges \<longleftrightarrow> (\<exists>e. y = (SideE, e) \<and> e \<in> set (adjA edges a))"
  by (force simp: sym_adj_def adj_def adjA_def)

lemma sym_adj_E: "((SideE, e), y) \<in> sym_adj edges \<longleftrightarrow> (\<exists>a. y = (SideA, a) \<and> a \<in> set (adjE edges e))"
  by (force simp: sym_adj_def adj_def adjE_def)

lemma component_refl: "x \<in> component edges x"
  by (simp add: component_def)

lemma component_step: "y \<in> component edges x \<Longrightarrow> (y, z) \<in> sym_adj edges \<Longrightarrow> z \<in> component edges x"
  by (auto simp: component_def intro: rtrancl_into_rtrancl)

lemma component_sym: "y \<in> component edges x \<Longrightarrow> x \<in> component edges y"
  using symD[OF sym_rtrancl[OF sym_sym_adj], of x y edges] by (simp add: component_def)

lemma component_trans: "y \<in> component edges x \<Longrightarrow> z \<in> component edges y \<Longrightarrow> z \<in> component edges x"
  by (auto simp: component_def)

lemma component_eq: "y \<in> component edges x \<Longrightarrow> component edges y = component edges x"
  by (meson component_sym component_trans subsetI subset_antisym)

lemma component_closed_subset:
  assumes "x \<in> F" and "\<And>y z. y \<in> F \<Longrightarrow> (y, z) \<in> sym_adj edges \<Longrightarrow> z \<in> F"
  shows "component edges x \<subseteq> F"
proof
  fix y assume "y \<in> component edges x"
  then have "(x, y) \<in> (sym_adj edges)\<^sup>*" by (simp add: component_def)
  then show "y \<in> F" by (induction rule: rtrancl_induct) (use assms in auto)
qed

lemma cmap_appendA:
  "map_of cA nid = None \<Longrightarrow> cmap (cA @ [(nid, c)]) cE = (cmap cA cE)((SideA, nid) \<mapsto> c)"
  by (auto simp: cmap_def fun_eq_iff map_add_def split: side.splits option.splits)

lemma cmap_appendE:
  "map_of cE nid = None \<Longrightarrow> cmap cA (cE @ [(nid, c)]) = (cmap cA cE)((SideE, nid) \<mapsto> c)"
  by (auto simp: cmap_def fun_eq_iff map_add_def split: side.splits option.splits)

definition binv :: "(int \<times> int) list \<Rightarrow> int \<Rightarrow> (node \<Rightarrow> int option) \<Rightarrow> node \<Rightarrow> node list
    \<Rightarrow> comp_dict \<Rightarrow> comp_dict \<Rightarrow> bool" where
  "binv edges cid m0 s0 q cA cE \<longleftrightarrow>
     distinct (map fst cA) \<and> distinct (map fst cE) \<and>
     (\<forall>x c. m0 x = Some c \<longrightarrow> cmap cA cE x = Some c) \<and>
     (\<forall>x. m0 x = None \<longrightarrow> cmap cA cE x \<noteq> None \<longrightarrow>
        cmap cA cE x = Some cid \<and> x \<in> component edges s0) \<and>
     set q \<subseteq> component edges s0 \<and>
     (\<forall>x y. m0 x = None \<longrightarrow> cmap cA cE x \<noteq> None \<longrightarrow> (x, y) \<in> sym_adj edges \<longrightarrow>
        cmap cA cE y \<noteq> None \<or> y \<in> set q) \<and>
     (s0 \<in> set q \<or> cmap cA cE s0 \<noteq> None)"

lemma binv_skip:
  assumes "binv edges cid m0 s0 (x # q) cA cE" and "cmap cA cE x \<noteq> None"
  shows "binv edges cid m0 s0 q cA cE"
proof -
  have "\<forall>z y. m0 z = None \<longrightarrow> cmap cA cE z \<noteq> None \<longrightarrow> (z, y) \<in> sym_adj edges \<longrightarrow>
        cmap cA cE y \<noteq> None \<or> y \<in> set q"
  proof (intro allI impI)
    fix z y assume "m0 z = None" "cmap cA cE z \<noteq> None" "(z, y) \<in> sym_adj edges"
    then have "cmap cA cE y \<noteq> None \<or> y \<in> set (x # q)"
      using assms(1) unfolding binv_def by blast
    then show "cmap cA cE y \<noteq> None \<or> y \<in> set q"
      using assms(2) by auto
  qed
  moreover have "s0 \<in> set q \<or> cmap cA cE s0 \<noteq> None"
    using assms unfolding binv_def by auto
  moreover have "set q \<subseteq> component edges s0"
    using assms(1) unfolding binv_def by simp
  ultimately show ?thesis
    using assms(1) unfolding binv_def by blast
qed

lemma binv_stepA:
  assumes inv: "binv edges cid m0 s0 ((SideA, nid) # q) cA cE" and free: "map_of cA nid = None"
  shows "binv edges cid m0 s0
           (q @ map (Pair SideE) (filter (\<lambda>e. map_of cE e = None) (adjA edges nid)))
           (cA @ [(nid, cid)]) cE"
proof -
  let ?m = "cmap cA cE" and ?x = "(SideA, nid)"
  let ?q' = "q @ map (Pair SideE) (filter (\<lambda>e. map_of cE e = None) (adjA edges nid))"
  have m': "cmap (cA @ [(nid, cid)]) cE = ?m(?x \<mapsto> cid)"
    using free by (rule cmap_appendA)
  have mx: "?m ?x = None" using free by (simp add: cmap_def)
  have xC: "?x \<in> component edges s0" using inv by (simp add: binv_def)
  have d: "distinct (map fst (cA @ [(nid, cid)]))"
    using inv free by (auto simp: binv_def map_of_eq_None_iff)
  have m0x: "m0 ?x = None"
    using inv mx unfolding binv_def by (metis option.exhaust option.distinct(1))
  have a: "\<forall>y c. m0 y = Some c \<longrightarrow> (?m(?x \<mapsto> cid)) y = Some c"
    using inv m0x unfolding binv_def by auto
  have b: "\<forall>y. m0 y = None \<longrightarrow> (?m(?x \<mapsto> cid)) y \<noteq> None \<longrightarrow>
        (?m(?x \<mapsto> cid)) y = Some cid \<and> y \<in> component edges s0"
    using inv xC unfolding binv_def by auto
  have c: "set ?q' \<subseteq> component edges s0"
  proof -
    have "set q \<subseteq> component edges s0" using inv by (simp add: binv_def)
    moreover have "(SideE, e) \<in> component edges s0" if "e \<in> set (adjA edges nid)" for e
      using component_step[OF xC] that by (simp add: sym_adj_A)
    ultimately show ?thesis by auto
  qed
  have nb: "(?m(?x \<mapsto> cid)) y \<noteq> None \<or> y \<in> set ?q'" if "(?x, y) \<in> sym_adj edges" for y
  proof -
    from that obtain e where e: "y = (SideE, e)" "e \<in> set (adjA edges nid)"
      by (auto simp: sym_adj_A)
    show ?thesis
    proof (cases "map_of cE e = None")
      case True then show ?thesis using e by simp
    next
      case False then show ?thesis using e by (simp add: cmap_def)
    qed
  qed
  have old: "(?m(?x \<mapsto> cid)) y \<noteq> None \<or> y \<in> set ?q'"
    if "m0 z = None" "?m z \<noteq> None" "(z, y) \<in> sym_adj edges" for z y
  proof -
    have "?m y \<noteq> None \<or> y \<in> set (?x # q)"
      using inv that unfolding binv_def by blast
    then show ?thesis by auto
  qed
  have e: "\<forall>z y. m0 z = None \<longrightarrow> (?m(?x \<mapsto> cid)) z \<noteq> None \<longrightarrow> (z, y) \<in> sym_adj edges \<longrightarrow>
        (?m(?x \<mapsto> cid)) y \<noteq> None \<or> y \<in> set ?q'"
  proof (intro allI impI)
    fix z y assume z: "m0 z = None" "(?m(?x \<mapsto> cid)) z \<noteq> None" "(z, y) \<in> sym_adj edges"
    show "(?m(?x \<mapsto> cid)) y \<noteq> None \<or> y \<in> set ?q'"
    proof (cases "z = ?x")
      case True then show ?thesis using nb z by blast
    next
      case False
      then have "?m z \<noteq> None" using z by simp
      then show ?thesis using old z by blast
    qed
  qed
  have f: "s0 \<in> set ?q' \<or> (?m(?x \<mapsto> cid)) s0 \<noteq> None"
    using inv unfolding binv_def by auto
  have d2: "distinct (map fst cA)" "distinct (map fst cE)"
    using inv by (simp_all add: binv_def)
  show ?thesis
    unfolding binv_def m' by (intro conjI d d2 a b c e f)
qed

lemma binv_stepE:
  assumes inv: "binv edges cid m0 s0 ((SideE, nid) # q) cA cE" and free: "map_of cE nid = None"
  shows "binv edges cid m0 s0
           (q @ map (Pair SideA) (filter (\<lambda>a. map_of cA a = None) (adjE edges nid)))
           cA (cE @ [(nid, cid)])"
proof -
  let ?m = "cmap cA cE" and ?x = "(SideE, nid)"
  let ?q' = "q @ map (Pair SideA) (filter (\<lambda>a. map_of cA a = None) (adjE edges nid))"
  have m': "cmap cA (cE @ [(nid, cid)]) = ?m(?x \<mapsto> cid)"
    using free by (rule cmap_appendE)
  have mx: "?m ?x = None" using free by (simp add: cmap_def)
  have xC: "?x \<in> component edges s0" using inv by (simp add: binv_def)
  have d: "distinct (map fst (cE @ [(nid, cid)]))"
    using inv free by (auto simp: binv_def map_of_eq_None_iff)
  have m0x: "m0 ?x = None"
    using inv mx unfolding binv_def by (metis option.exhaust option.distinct(1))
  have a: "\<forall>y c. m0 y = Some c \<longrightarrow> (?m(?x \<mapsto> cid)) y = Some c"
    using inv m0x unfolding binv_def by auto
  have b: "\<forall>y. m0 y = None \<longrightarrow> (?m(?x \<mapsto> cid)) y \<noteq> None \<longrightarrow>
        (?m(?x \<mapsto> cid)) y = Some cid \<and> y \<in> component edges s0"
    using inv xC unfolding binv_def by auto
  have c: "set ?q' \<subseteq> component edges s0"
  proof -
    have "set q \<subseteq> component edges s0" using inv by (simp add: binv_def)
    moreover have "(SideA, e) \<in> component edges s0" if "e \<in> set (adjE edges nid)" for e
      using component_step[OF xC] that by (simp add: sym_adj_E)
    ultimately show ?thesis by auto
  qed
  have nb: "(?m(?x \<mapsto> cid)) y \<noteq> None \<or> y \<in> set ?q'" if "(?x, y) \<in> sym_adj edges" for y
  proof -
    from that obtain e where e: "y = (SideA, e)" "e \<in> set (adjE edges nid)"
      by (auto simp: sym_adj_E)
    show ?thesis
    proof (cases "map_of cA e = None")
      case True then show ?thesis using e by simp
    next
      case False then show ?thesis using e by (simp add: cmap_def)
    qed
  qed
  have old: "(?m(?x \<mapsto> cid)) y \<noteq> None \<or> y \<in> set ?q'"
    if "m0 z = None" "?m z \<noteq> None" "(z, y) \<in> sym_adj edges" for z y
  proof -
    have "?m y \<noteq> None \<or> y \<in> set (?x # q)"
      using inv that unfolding binv_def by blast
    then show ?thesis by auto
  qed
  have e: "\<forall>z y. m0 z = None \<longrightarrow> (?m(?x \<mapsto> cid)) z \<noteq> None \<longrightarrow> (z, y) \<in> sym_adj edges \<longrightarrow>
        (?m(?x \<mapsto> cid)) y \<noteq> None \<or> y \<in> set ?q'"
  proof (intro allI impI)
    fix z y assume z: "m0 z = None" "(?m(?x \<mapsto> cid)) z \<noteq> None" "(z, y) \<in> sym_adj edges"
    show "(?m(?x \<mapsto> cid)) y \<noteq> None \<or> y \<in> set ?q'"
    proof (cases "z = ?x")
      case True then show ?thesis using nb z by blast
    next
      case False
      then have "?m z \<noteq> None" using z by simp
      then show ?thesis using old z by blast
    qed
  qed
  have f: "s0 \<in> set ?q' \<or> (?m(?x \<mapsto> cid)) s0 \<noteq> None"
    using inv unfolding binv_def by auto
  have d2: "distinct (map fst cA)" "distinct (map fst cE)"
    using inv by (simp_all add: binv_def)
  show ?thesis
    unfolding binv_def m' by (intro conjI d d2 a b c e f)
qed


lemma bfs_inv:
  "binv edges cid m0 s0 q cA cE \<Longrightarrow> bfs edges cid q cA cE = (cA', cE')
     \<Longrightarrow> binv edges cid m0 s0 [] cA' cE'"
proof (induction edges cid q cA cE rule: bfs.induct)
  case (1 edges comp_id cA cE)
  then show ?case by simp
next
  case (2 edges comp_id nid q cA cE)
  show ?case
  proof (cases "map_of cA nid = None")
    case True
    then show ?thesis
      using 2 binv_stepA[OF "2.prems"(1) True] by simp
  next
    case False
    then have "cmap cA cE (SideA, nid) \<noteq> None" by (simp add: cmap_def)
    then show ?thesis
      using 2 False binv_skip[OF "2.prems"(1)] by simp
  qed
next
  case (3 edges comp_id nid q cA cE)
  show ?case
  proof (cases "map_of cE nid = None")
    case True
    then show ?thesis
      using 3 binv_stepE[OF "3.prems"(1) True] by simp
  next
    case False
    then have "cmap cA cE (SideE, nid) \<noteq> None" by (simp add: cmap_def)
    then show ?thesis
      using 3 False binv_skip[OF "3.prems"(1)] by simp
  qed
qed

definition closed_dom :: "(int \<times> int) list \<Rightarrow> (node \<Rightarrow> int option) \<Rightarrow> bool" where
  "closed_dom edges m \<longleftrightarrow> (\<forall>x y. m x \<noteq> None \<longrightarrow> (x, y) \<in> sym_adj edges \<longrightarrow> m y \<noteq> None)"

lemma closed_dom_component:
  assumes "closed_dom edges m" and "m x \<noteq> None" and "y \<in> component edges x"
  shows "m y \<noteq> None"
proof -
  have "component edges x \<subseteq> {z. m z \<noteq> None}"
  proof (rule component_closed_subset)
    show "x \<in> {z. m z \<noteq> None}" using assms(2) by simp
  next
    fix y z assume "y \<in> {z. m z \<noteq> None}" "(y, z) \<in> sym_adj edges"
    then show "z \<in> {z. m z \<noteq> None}"
      using assms(1) unfolding closed_dom_def by blast
  qed
  then show ?thesis using assms(3) by auto
qed

lemma bfs_correct:
  assumes cl: "closed_dom edges (cmap cA cE)"
    and fresh: "cmap cA cE s0 = None"
    and dist: "distinct (map fst cA)" "distinct (map fst cE)"
    and res: "bfs edges cid [s0] cA cE = (cA', cE')"
  shows "cmap cA' cE' = (\<lambda>x. if x \<in> component edges s0 then Some cid else cmap cA cE x)"
    and "distinct (map fst cA')" and "distinct (map fst cE')"
proof -
  let ?old = "cmap cA cE" and ?new = "cmap cA' cE'" and ?C = "component edges s0"
  have freshC: "?old x = None" if "x \<in> ?C" for x
  proof (rule ccontr)
    assume "?old x \<noteq> None"
    then have "?old s0 \<noteq> None"
      using closed_dom_component[OF cl _ component_sym[OF that]] by blast
    then show False using fresh by simp
  qed
  have "binv edges cid ?old s0 [s0] cA cE"
    unfolding binv_def using dist by (auto simp: component_refl)
  then have inv: "binv edges cid ?old s0 [] cA' cE'"
    using res by (rule bfs_inv)
  show "distinct (map fst cA')" "distinct (map fst cE')"
    using inv by (simp_all add: binv_def)
  define F where "F = {x. ?old x = None \<and> ?new x \<noteq> None}"
  have s0F: "s0 \<in> F" using inv fresh by (simp add: binv_def F_def)
  have FC: "F \<subseteq> ?C" using inv unfolding binv_def F_def by blast
  have "z \<in> F" if "y \<in> F" "(y, z) \<in> sym_adj edges" for y z
  proof -
    have "z \<in> ?C" using FC that component_step by blast
    then have "?old z = None" by (rule freshC)
    moreover have "\<forall>x y. ?old x = None \<longrightarrow> ?new x \<noteq> None \<longrightarrow> (x, y) \<in> sym_adj edges
        \<longrightarrow> ?new y \<noteq> None"
      using inv by (simp add: binv_def)
    then have "?new z \<noteq> None"
      using that unfolding F_def by blast
    ultimately show ?thesis by (simp add: F_def)
  qed
  then have CF: "?C \<subseteq> F" using s0F by (intro component_closed_subset) auto
  show "?new = (\<lambda>x. if x \<in> ?C then Some cid else ?old x)"
  proof
    fix x
    show "?new x = (if x \<in> ?C then Some cid else ?old x)"
    proof (cases "x \<in> ?C")
      case True
      then have "x \<in> F" using CF by blast
      then have "?new x = Some cid" using inv unfolding binv_def F_def by blast
      then show ?thesis using True by simp
    next
      case False
      then have nF: "x \<notin> F" using FC by blast
      show ?thesis
      proof (cases "?old x")
        case None
        then have "?new x = None" using nF by (simp add: F_def)
        then show ?thesis using False None by simp
      next
        case (Some c)
        then have "?new x = Some c" using inv unfolding binv_def by blast
        then show ?thesis using False Some by simp
      qed
    qed
  qed
qed

definition oinv :: "(int \<times> int) list \<Rightarrow> comp_dict \<times> comp_dict \<times> int \<Rightarrow> bool" where
  "oinv edges st \<longleftrightarrow> (case st of (cA, cE, idx) \<Rightarrow>
     distinct (map fst cA) \<and> distinct (map fst cE) \<and>
     closed_dom edges (cmap cA cE) \<and>
     (\<forall>x y c c'. cmap cA cE x = Some c \<longrightarrow> cmap cA cE y = Some c' \<longrightarrow>
        (c = c' \<longleftrightarrow> y \<in> component edges x)) \<and>
     (\<forall>x c. cmap cA cE x = Some c \<longrightarrow> c < idx))"

lemma oinv_step:
  assumes inv: "oinv edges (cA, cE, idx)" and fresh: "cmap cA cE s0 = None"
    and res: "bfs edges idx [s0] cA cE = (cA', cE')"
  shows "oinv edges (cA', cE', idx + 1)"
    and "cmap cA' cE' s0 \<noteq> None"
    and "\<And>x. cmap cA cE x \<noteq> None \<Longrightarrow> cmap cA' cE' x \<noteq> None"
proof -
  let ?old = "cmap cA cE" and ?new = "cmap cA' cE'" and ?C = "component edges s0"
  have cl: "closed_dom edges ?old" and dist: "distinct (map fst cA)" "distinct (map fst cE)"
    using inv by (simp_all add: oinv_def)
  have "\<forall>x y c c'. ?old x = Some c \<longrightarrow> ?old y = Some c' \<longrightarrow>
        (c = c' \<longleftrightarrow> y \<in> component edges x)"
    using inv by (simp add: oinv_def)
  then have ids: "\<And>x y c c'. ?old x = Some c \<Longrightarrow> ?old y = Some c' \<Longrightarrow>
        (c = c' \<longleftrightarrow> y \<in> component edges x)"
    by blast
  have "\<forall>x c. ?old x = Some c \<longrightarrow> c < idx"
    using inv by (simp add: oinv_def)
  then have bnd: "\<And>x c. ?old x = Some c \<Longrightarrow> c < idx"
    by blast
  note bc = bfs_correct[OF cl fresh dist res]
  have new: "?new x = (if x \<in> ?C then Some idx else ?old x)" for x
    by (simp add: bc(1))
  have freshC: "?old x = None" if "x \<in> ?C" for x
  proof (rule ccontr)
    assume "?old x \<noteq> None"
    then have "?old s0 \<noteq> None"
      using closed_dom_component[OF cl _ component_sym[OF that]] by blast
    then show False using fresh by simp
  qed
  show "?new s0 \<noteq> None" by (simp add: new component_refl)
  show "?new x \<noteq> None" if "?old x \<noteq> None" for x using that by (simp add: new)
  have cl': "closed_dom edges ?new"
    unfolding closed_dom_def
  proof (intro allI impI)
    fix x y assume x: "?new x \<noteq> None" and xy: "(x, y) \<in> sym_adj edges"
    show "?new y \<noteq> None"
    proof (cases "x \<in> ?C")
      case True
      then have "y \<in> ?C" using xy by (rule component_step)
      then show ?thesis by (simp add: new)
    next
      case False
      then have "?old x \<noteq> None" using x by (simp add: new)
      then have "?old y \<noteq> None" using cl xy unfolding closed_dom_def by blast
      then show ?thesis by (simp add: new)
    qed
  qed
  have ids': "(c = c') = (y \<in> component edges x)"
    if x: "?new x = Some c" and y: "?new y = Some c'" for x y c c'
  proof (cases "x \<in> ?C")
    case xC: True
    then have c: "c = idx" using x by (simp add: new)
    have cx: "component edges x = ?C" using xC by (rule component_eq)
    show ?thesis
    proof (cases "y \<in> ?C")
      case True
      then show ?thesis using y c cx by (simp add: new)
    next
      case False
      then have "?old y = Some c'" using y by (simp add: new)
      then have "c' < idx" by (rule bnd)
      then show ?thesis using c cx False by simp
    qed
  next
    case xC: False
    then have ox: "?old x = Some c" using x by (simp add: new)
    show ?thesis
    proof (cases "y \<in> ?C")
      case True
      then have c': "c' = idx" using y by (simp add: new)
      have "y \<notin> component edges x"
      proof
        assume "y \<in> component edges x"
        then have "x \<in> component edges y" by (rule component_sym)
        then show False using xC component_eq[OF True] by simp
      qed
      moreover have "c < idx" using ox by (rule bnd)
      ultimately show ?thesis using c' by simp
    next
      case False
      then have "?old y = Some c'" using y by (simp add: new)
      then show ?thesis using ids ox by blast
    qed
  qed
  have bnd': "c < idx + 1" if "?new x = Some c" for x c
  proof (cases "x \<in> ?C")
    case True then show ?thesis using that by (simp add: new)
  next
    case False
    then have "?old x = Some c" using that by (simp add: new)
    then show ?thesis using bnd by fastforce
  qed
  show "oinv edges (cA', cE', idx + 1)"
    unfolding oinv_def using bc(2,3) cl' ids' bnd' by simp
qed

lemma cmap_side: "map_of (case s of SideA \<Rightarrow> cA | SideE \<Rightarrow> cE) n = cmap cA cE (s, n)"
  by (simp add: cmap_def split: side.splits)

lemma components_from_inv_aux:
  assumes "oinv edges st"
  shows "oinv edges (components_from s edges ns st)
    \<and> (\<forall>x. (case st of (cA, cE, idx) \<Rightarrow> cmap cA cE x \<noteq> None \<or> x \<in> Pair s ` set ns)
          \<longrightarrow> (case components_from s edges ns st of (cA, cE, idx) \<Rightarrow> cmap cA cE x \<noteq> None))"
  using assms
proof (induction s edges ns st rule: components_from.induct)
  case (1 s edges st)
  then show ?case by (auto split: prod.splits)
next
  case (2 s edges n0 ns cA cE comp_idx)
  show ?case
  proof (cases "cmap cA cE (s, n0) = None")
    case False
    then have "oinv edges (components_from s edges ns (cA, cE, comp_idx)) \<and>
      (\<forall>x. cmap cA cE x \<noteq> None \<or> x \<in> Pair s ` set ns
          \<longrightarrow> (case components_from s edges ns (cA, cE, comp_idx) of (cA, cE, idx) \<Rightarrow> cmap cA cE x \<noteq> None))"
      using 2 by (simp add: cmap_side)
    then show ?thesis using False by (auto simp: cmap_side)
  next
    case True
    obtain cA' cE' where res: "bfs edges comp_idx [(s, n0)] cA cE = (cA', cE')"
      by (cases "bfs edges comp_idx [(s, n0)] cA cE") auto
    note st = oinv_step[OF "2.prems" True res]
    have ih: "oinv edges (components_from s edges ns (cA', cE', comp_idx + 1)) \<and>
      (\<forall>x. cmap cA' cE' x \<noteq> None \<or> x \<in> Pair s ` set ns
          \<longrightarrow> (case components_from s edges ns (cA', cE', comp_idx + 1) of (cA, cE, idx) \<Rightarrow> cmap cA cE x \<noteq> None))"
    proof -
      have nn: "\<not> map_of (case s of SideA \<Rightarrow> cA | SideE \<Rightarrow> cE) n0 \<noteq> None"
        using True by (simp add: cmap_side)
      show ?thesis
        using "2.IH"(2)[OF nn res[symmetric] st(1)] by simp
    qed
    have eq: "components_from s edges (n0 # ns) (cA, cE, comp_idx)
        = components_from s edges ns (cA', cE', comp_idx + 1)"
      using True res by (simp add: cmap_side)
    show ?thesis
      unfolding eq using ih st(2,3) by auto
  qed
qed


lemma components_from_inv:
  assumes "oinv edges (cA, cE, idx)"
    and "components_from s edges ns (cA, cE, idx) = (cA', cE', idx')"
  shows "oinv edges (cA', cE', idx')"
    and "\<And>x. cmap cA cE x \<noteq> None \<Longrightarrow> cmap cA' cE' x \<noteq> None"
    and "\<And>n. n \<in> set ns \<Longrightarrow> cmap cA' cE' (s, n) \<noteq> None"
  using components_from_inv_aux[OF assms(1), of s ns] assms(2) by auto

lemma oinv_init: "oinv edges ([], [], 0)"
  by (simp add: oinv_def closed_dom_def cmap_def split: side.splits)

lemma assign_components_inv:
  assumes "assign_components edges = (cA, cE, idx)"
  shows "oinv edges (cA, cE, idx)"
    and "(a, e) \<in> set edges \<Longrightarrow> cmap cA cE (SideA, a) \<noteq> None"
    and "(a, e) \<in> set edges \<Longrightarrow> cmap cA cE (SideE, e) \<noteq> None"
proof -
  obtain cA1 cE1 idx1 where
    st1: "components_from SideA edges (nodesA edges) ([], [], 0) = (cA1, cE1, idx1)"
    using prod_cases3 by blast
  have st2: "components_from SideE edges (nodesE edges) (cA1, cE1, idx1) = (cA, cE, idx)"
    using assms st1 by (simp add: assign_components_def)
  note i1 = components_from_inv[OF oinv_init st1]
  note i2 = components_from_inv[OF i1(1) st2]
  show "oinv edges (cA, cE, idx)" by (rule i2(1))
  show "cmap cA cE (SideE, e) \<noteq> None" if "(a, e) \<in> set edges"
    using that by (intro i2(3)) (force simp: nodesE_def)
  show "cmap cA cE (SideA, a) \<noteq> None" if "(a, e) \<in> set edges"
    using that by (intro i2(2) i1(3)) (force simp: nodesA_def)
qed

lemma fold_sum_by_comp:
  "fold (\<lambda>(n, cid) acc. acc(cid := acc cid + g n)) xs acc c
     = acc c + sum_list (map (g \<circ> fst) (filter (\<lambda>p. snd p = c) xs))"
  by (induction xs arbitrary: acc) (auto simp: add.assoc split: prod.splits)

lemma sum_by_comp_set:
  assumes "distinct (map fst xs)"
  shows "sum_by_comp cents xs c = sum (get0 cents) {n. map_of xs n = Some c}"
proof -
  have d: "distinct (map fst (filter (\<lambda>p. snd p = c) xs))"
    using assms by (rule distinct_map_filter)
  have s: "set (map fst (filter (\<lambda>p. snd p = c) xs)) = {n. map_of xs n = Some c}"
    using assms by (force simp: image_iff)
  have "sum_by_comp cents xs c = sum_list (map (get0 cents) (map fst (filter (\<lambda>p. snd p = c) xs)))"
    by (simp add: sum_by_comp_def fold_sum_by_comp)
  also have "\<dots> = sum (get0 cents) (set (map fst (filter (\<lambda>p. snd p = c) xs)))"
    using d by (rule sum_list_distinct_conv_sum_set)
  finally show ?thesis by (simp only: s)
qed

subsection \<open>What the validator computes\<close>

text \<open>
  \<open>S_A edges A0 x\<close> and \<open>S_E edges E0 x\<close> are the sums of the cents over the API nodes and
  over the ERP nodes of the connected component of the node \<open>x\<close>, read from the tables as
  the code reads them (\<^verbatim>\<open>api_map.get(a, 0)\<close>).
\<close>

definition S_A :: "(int \<times> int) list \<Rightarrow> api_row list \<Rightarrow> node \<Rightarrow> int" where
  "S_A edges A0 x = sum (get0 (api_map_of A0)) {a. (SideA, a) \<in> component edges x}"

definition S_E :: "(int \<times> int) list \<Rightarrow> erp_row list \<Rightarrow> node \<Rightarrow> int" where
  "S_E edges E0 x = sum (get0 (erp_map_of E0)) {e. (SideE, e) \<in> component edges x}"

definition graph_nodes :: "(int \<times> int) list \<Rightarrow> node set" where
  "graph_nodes edges = Pair SideA ` fst ` set edges \<union> Pair SideE ` snd ` set edges"

lemma api_map_of_row:
  "distinct (map a_row_id A0) \<Longrightarrow> r \<in> set A0 \<Longrightarrow> get0 (api_map_of A0) (a_row_id r) = api_cents r"
proof -
  assume d: "distinct (map a_row_id A0)" and r: "r \<in> set A0"
  have z: "zip (map a_row_id A0) (map api_cents A0) = map (\<lambda>r. (a_row_id r, api_cents r)) A0"
    by (induction A0) auto
  have "distinct (map fst (rev (map (\<lambda>r. (a_row_id r, api_cents r)) A0)))"
    using d by (simp add: rev_map[symmetric] comp_def)
  moreover have "(a_row_id r, api_cents r) \<in> set (rev (map (\<lambda>r. (a_row_id r, api_cents r)) A0))"
    using r by auto
  ultimately have "map_of (rev (map (\<lambda>r. (a_row_id r, api_cents r)) A0)) (a_row_id r) = Some (api_cents r)"
    by (rule map_of_is_SomeI)
  then show ?thesis by (simp add: get0_def api_map_of_def dict_zip_def z)
qed

lemma erp_map_of_row:
  "distinct (map e_row_id E0) \<Longrightarrow> r \<in> set E0 \<Longrightarrow> get0 (erp_map_of E0) (e_row_id r) = erp_cents r"
proof -
  assume d: "distinct (map e_row_id E0)" and r: "r \<in> set E0"
  have z: "zip (map e_row_id E0) (map erp_cents E0) = map (\<lambda>r. (e_row_id r, erp_cents r)) E0"
    by (induction E0) auto
  have "distinct (map fst (rev (map (\<lambda>r. (e_row_id r, erp_cents r)) E0)))"
    using d by (simp add: rev_map[symmetric] comp_def)
  moreover have "(e_row_id r, erp_cents r) \<in> set (rev (map (\<lambda>r. (e_row_id r, erp_cents r)) E0))"
    using r by auto
  ultimately have "map_of (rev (map (\<lambda>r. (e_row_id r, erp_cents r)) E0)) (e_row_id r) = Some (erp_cents r)"
    by (rule map_of_is_SomeI)
  then show ?thesis by (simp add: get0_def erp_map_of_def dict_zip_def z)
qed

lemma filter_zip_map:
  "map fst (filter (\<lambda>(m, c). P c) (zip ms (map f ms))) = filter (\<lambda>m. P (f m)) ms"
  by (induction ms) auto

lemma assigned_component_A:
  assumes inv: "oinv edges (cA, cE, idx)" and x: "cmap cA cE x = Some c"
  shows "{a. (SideA, a) \<in> component edges x} = {a. map_of cA a = Some c}"
    and "{e. (SideE, e) \<in> component edges x} = {e. map_of cE e = Some c}"
proof -
  have cl: "closed_dom edges (cmap cA cE)"
    using inv by (simp add: oinv_def)
  have "\<forall>x y c c'. cmap cA cE x = Some c \<longrightarrow> cmap cA cE y = Some c' \<longrightarrow>
        (c = c' \<longleftrightarrow> y \<in> component edges x)"
    using inv by (simp add: oinv_def)
  then have ids: "\<And>y c'. cmap cA cE y = Some c' \<Longrightarrow> (c = c' \<longleftrightarrow> y \<in> component edges x)"
    using x by blast
  have main: "y \<in> component edges x \<longleftrightarrow> cmap cA cE y = Some c" for y
  proof
    assume y: "y \<in> component edges x"
    then have "cmap cA cE y \<noteq> None"
      using closed_dom_component[OF cl _ y] x by simp
    then obtain c' where c': "cmap cA cE y = Some c'" by blast
    then show "cmap cA cE y = Some c" using ids[OF c'] y by simp
  next
    assume "cmap cA cE y = Some c"
    then show "y \<in> component edges x" using ids by blast
  qed
  show "{a. (SideA, a) \<in> component edges x} = {a. map_of cA a = Some c}"
    by (simp add: main) (simp add: cmap_def)
  show "{e. (SideE, e) \<in> component edges x} = {e. map_of cE e = Some c}"
    by (simp add: main) (simp add: cmap_def)
qed

lemma finalize_filter:
  "finalize_by_components matches A0 E0 =
     filter (\<lambda>m. S_A (edges_of matches) A0 (SideA, api_row_id m)
                 = S_E (edges_of matches) E0 (SideA, api_row_id m)) matches"
proof (cases "matches = []")
  case True
  then show ?thesis by (simp add: finalize_by_components_def)
next
  case False
  let ?E = "edges_of matches"
  obtain cA cE idx where ac: "assign_components ?E = (cA, cE, idx)"
    using prod_cases3 by blast
  note inv = assign_components_inv[OF ac]
  let ?V = "set (valid_comp (api_map_of A0) (erp_map_of E0) cA cE)"
  let ?f = "\<lambda>m. comp_for_edge cA cE (api_row_id m, erp_row_id m)"
  have dist: "distinct (map fst cA)" "distinct (map fst cE)"
    using inv(1) by (simp_all add: oinv_def)
  have fin: "finalize_by_components matches A0 E0 = filter (\<lambda>m. ?f m \<in> ?V) matches"
    using False ac filter_zip_map[of "\<lambda>c. c \<in> ?V" matches ?f]
    by (simp add: finalize_by_components_def Let_def edges_of_def comp_def)
  have "(?f m \<in> ?V) \<longleftrightarrow> S_A ?E A0 (SideA, api_row_id m) = S_E ?E E0 (SideA, api_row_id m)"
    if m: "m \<in> set matches" for m
  proof -
    let ?x = "(SideA, api_row_id m)"
    have e: "(api_row_id m, erp_row_id m) \<in> set ?E"
      using m by (force simp: edges_of_def)
    then obtain c where c: "cmap cA cE ?x = Some c"
      using inv(2) by blast
    then have mc: "map_of cA (api_row_id m) = Some c" by (simp add: cmap_def)
    then have fm: "?f m = c" by (simp add: comp_for_edge_def)
    have key: "c \<in> snd ` set cA"
      using map_of_SomeD[OF mc] by force
    note cs = assigned_component_A[OF inv(1) c]
    have "(c \<in> ?V) \<longleftrightarrow> sum_by_comp (api_map_of A0) cA c = sum_by_comp (erp_map_of E0) cE c"
      using key by (auto simp: valid_comp_def)
    then show ?thesis
      by (simp add: fm S_A_def S_E_def cs sum_by_comp_set[OF dist(1)] sum_by_comp_set[OF dist(2)])
  qed
  then show ?thesis
    unfolding fin by (intro filter_cong) auto
qed


lemma sym_adj_mono: "set es \<subseteq> set es' \<Longrightarrow> sym_adj es \<subseteq> sym_adj es'"
  by (auto simp: sym_adj_def adj_def)

lemma sym_adj_endpoint:
  assumes "(y, z) \<in> sym_adj edges"
  obtains a e where "(a, e) \<in> set edges" and "(y = (SideA, a) \<and> z = (SideE, e)) \<or> (y = (SideE, e) \<and> z = (SideA, a))"
  using assms by (auto simp: sym_adj_def adj_def)

lemma component_filter:
  assumes keep: "\<And>m. m \<in> set matches \<Longrightarrow>
      (SideA, api_row_id m) \<in> component (edges_of matches) x \<Longrightarrow> P m"
  shows "component (edges_of (filter P matches)) x = component (edges_of matches) x"
proof
  have "sym_adj (edges_of (filter P matches)) \<subseteq> sym_adj (edges_of matches)"
    by (rule sym_adj_mono) (auto simp: edges_of_def)
  then show "component (edges_of (filter P matches)) x \<subseteq> component (edges_of matches) x"
    unfolding component_def using rtrancl_mono by blast
next
  let ?E = "edges_of matches" and ?F = "edges_of (filter P matches)"
  show "component ?E x \<subseteq> component ?F x"
  proof
    fix y assume "y \<in> component ?E x"
    then have "(x, y) \<in> (sym_adj ?E)\<^sup>*" by (simp add: component_def)
    then show "y \<in> component ?F x"
    proof (induction rule: rtrancl_induct)
      case base
      then show ?case by (rule component_refl)
    next
      case (step y z)
      have yC: "y \<in> component ?E x" using step.hyps(1) by (simp add: component_def)
      then have zC: "z \<in> component ?E x" using step.hyps(2) by (rule component_step)
      obtain a e where ae: "(a, e) \<in> set ?E"
        and yz: "(y = (SideA, a) \<and> z = (SideE, e)) \<or> (y = (SideE, e) \<and> z = (SideA, a))"
        using step.hyps(2) by (rule sym_adj_endpoint)
      obtain m where m: "m \<in> set matches" "api_row_id m = a" "erp_row_id m = e"
        using ae by (auto simp: edges_of_def)
      have "(SideA, a) \<in> component ?E x" using yz yC zC by auto
      then have "P m" using keep m by simp
      then have "(a, e) \<in> set ?F" using m by (force simp: edges_of_def)
      then have "(y, z) \<in> sym_adj ?F" using yz by (auto simp: sym_adj_def adj_def)
      then show ?case using step.IH component_step by blast
    qed
  qed
qed

text \<open>
  C1. The component validation keeps an edge if and only if the connected component of the
  edge in the graph of the candidate edges has equal sums of cents on its API nodes and on
  its ERP nodes; and in the graph of the surviving edges every node lies in a component
  whose two sums are equal.
\<close>

theorem finalize_by_components_balanced:
  "(m \<in> set (finalize_by_components matches A0 E0) \<longleftrightarrow>
      m \<in> set matches \<and>
      S_A (edges_of matches) A0 (SideA, api_row_id m)
        = S_E (edges_of matches) E0 (SideA, api_row_id m))
   \<and> (\<forall>x \<in> graph_nodes (edges_of (finalize_by_components matches A0 E0)).
        S_A (edges_of (finalize_by_components matches A0 E0)) A0 x
          = S_E (edges_of (finalize_by_components matches A0 E0)) E0 x)"
proof
  show "m \<in> set (finalize_by_components matches A0 E0) \<longleftrightarrow>
      m \<in> set matches \<and>
      S_A (edges_of matches) A0 (SideA, api_row_id m)
        = S_E (edges_of matches) E0 (SideA, api_row_id m)"
    by (auto simp: finalize_filter)
next
  let ?E = "edges_of matches"
  let ?P = "\<lambda>m. S_A ?E A0 (SideA, api_row_id m) = S_E ?E E0 (SideA, api_row_id m)"
  let ?F = "edges_of (finalize_by_components matches A0 E0)"
  have F: "?F = edges_of (filter ?P matches)" by (simp add: finalize_filter)
  show "\<forall>x \<in> graph_nodes ?F. S_A ?F A0 x = S_E ?F E0 x"
  proof
    fix x assume "x \<in> graph_nodes ?F"
    then obtain m where m: "m \<in> set matches" "?P m"
      and x: "x = (SideA, api_row_id m) \<or> x = (SideE, erp_row_id m)"
      unfolding F by (auto simp: graph_nodes_def edges_of_def)
    let ?a = "(SideA, api_row_id m)"
    have "(?a, (SideE, erp_row_id m)) \<in> sym_adj ?E"
      using m(1) by (force simp: sym_adj_def adj_def edges_of_def)
    then have "(SideE, erp_row_id m) \<in> component ?E ?a"
      using component_step[OF component_refl] by blast
    then have "x \<in> component ?E ?a" using x component_refl by auto
    then have cx: "component ?E x = component ?E ?a" by (rule component_eq)
    have keep: "?P m'" if "m' \<in> set matches" "(SideA, api_row_id m') \<in> component ?E x" for m'
    proof -
      have "component ?E (SideA, api_row_id m') = component ?E ?a"
        using that(2) cx component_eq by blast
      then show ?thesis using m(2) by (simp add: S_A_def S_E_def)
    qed
    have "component (edges_of (filter ?P matches)) x = component ?E x"
      using keep by (rule component_filter)
    then show "S_A ?F A0 x = S_E ?F E0 x"
      using m(2) unfolding F by (simp add: S_A_def S_E_def cx)
  qed
qed

text \<open>
  A run of the validator: the API row 1 (1000 cents) is joined to the ERP rows 9 and 10
  (600 cents each) and the API row 2 (5 cents) to the ERP row 11 (5 cents).
\<close>

definition ex_match :: "int \<Rightarrow> int \<Rightarrow> match_row" where
  "ex_match a e = \<lparr>api_row_id = a, erp_row_id = e, stage = ''M2_KSUM_SAME_DAY'', prio = 20, ddiff = 0\<rparr>"

definition ex_api :: "int \<Rightarrow> int \<Rightarrow> api_row" where
  "ex_api i c = \<lparr>a_row_id = i, api_uid = ''u'', a_tenant_id = ''t'', a_bank_code = ''237'',
     api_acc_tail = ''7242'', api_date = 10, api_cents = c, api_is_tax = False,
     api_is_bankfees = False, api_is_rent_d1 = False, api_is_rent = False\<rparr>"

definition ex_erp :: "int \<Rightarrow> int \<Rightarrow> erp_row" where
  "ex_erp i c = \<lparr>e_row_id = i, erp_uid = ''c'', e_tenant_id = ''t'', e_bank_code = ''237'',
     erp_acc_tail = ''7242'', erp_date = 10, erp_cents = c\<rparr>"

lemma finalize_example:
  "finalize_by_components [ex_match 1 9, ex_match 1 10, ex_match 2 11]
     [ex_api 1 1000, ex_api 2 5] [ex_erp 9 600, ex_erp 10 600, ex_erp 11 5] = [ex_match 2 11]"
  by code_simp

theorem finalize_by_components_balanced_witness:
  "ex_match 2 11 \<in> set (finalize_by_components [ex_match 1 9, ex_match 1 10, ex_match 2 11]
       [ex_api 1 1000, ex_api 2 5] [ex_erp 9 600, ex_erp 10 600, ex_erp 11 5])
   \<and> S_A [(1, 9), (1, 10), (2, 11)] [ex_api 1 1000, ex_api 2 5] (SideA, 2)
       = S_E [(1, 9), (1, 10), (2, 11)] [ex_erp 9 600, ex_erp 10 600, ex_erp 11 5] (SideA, 2)
   \<and> ex_match 1 9 \<notin> set (finalize_by_components [ex_match 1 9, ex_match 1 10, ex_match 2 11]
       [ex_api 1 1000, ex_api 2 5] [ex_erp 9 600, ex_erp 10 600, ex_erp 11 5])
   \<and> S_A [(1, 9), (1, 10), (2, 11)] [ex_api 1 1000, ex_api 2 5] (SideA, 1)
       \<noteq> S_E [(1, 9), (1, 10), (2, 11)] [ex_erp 9 600, ex_erp 10 600, ex_erp 11 5] (SideA, 1)
   \<and> S_A [(2, 11)] [ex_api 1 1000, ex_api 2 5] (SideE, 11)
       = S_E [(2, 11)] [ex_erp 9 600, ex_erp 10 600, ex_erp 11 5] (SideE, 11)"
proof -
  let ?ms = "[ex_match 1 9, ex_match 1 10, ex_match 2 11]"
  let ?A = "[ex_api 1 1000, ex_api 2 5]" and ?E = "[ex_erp 9 600, ex_erp 10 600, ex_erp 11 5]"
  have e: "edges_of ?ms = [(1, 9), (1, 10), (2, 11)]" "edges_of [ex_match 2 11] = [(2, 11)]"
    by (simp_all add: edges_of_def ex_match_def)
  have n: "(SideE, 11) \<in> graph_nodes [(2, 11)]"
    by (simp add: graph_nodes_def)
  have neq: "ex_match 1 9 \<noteq> ex_match 2 11"
    by (simp add: ex_match_def)
  have a2: "api_row_id (ex_match 2 11) = 2" and a1: "api_row_id (ex_match 1 9) = 1"
    by (simp_all add: ex_match_def)
  show ?thesis
    using finalize_by_components_balanced[of "ex_match 2 11" ?ms ?A ?E]
      finalize_by_components_balanced[of "ex_match 1 9" ?ms ?A ?E] n neq
    unfolding finalize_example e a1 a2 by auto
qed

text \<open>
  C10. The validator is a pure filter: its output is a subsequence of the table of
  matches it was given, so every row of the output is a row of the input with all its
  fields (\<^verbatim>\<open>api_row_id\<close>, \<^verbatim>\<open>erp_row_id\<close>, \<^verbatim>\<open>stage\<close>, \<^verbatim>\<open>prio\<close>, \<^verbatim>\<open>ddiff\<close>),
  in the input's order, and no row is added.
\<close>

theorem finalize_by_components_subseq:
  "subseq (finalize_by_components matches A0 E0) matches"
  by (simp add: finalize_filter)

section \<open>The subset-sum engine\<close>

text \<open>
  The budgets of final.py (lines 34 to 42), at the defaults the module takes when the
  environment sets nothing.
\<close>

definition KSUM_MAX_ITEMS :: nat where "KSUM_MAX_ITEMS = 48"
definition MAX_GROUP_GUARD :: nat where "MAX_GROUP_GUARD = 2000"
definition MITM_STATE_BUDGET :: nat where "MITM_STATE_BUDGET = 200000"
definition CAP_PER_VALUE :: nat where "CAP_PER_VALUE = 32"
definition DP_MAX_TARGET_CENTS :: nat where "DP_MAX_TARGET_CENTS = 200000"
definition DP_MAX_ITEMS_DP :: nat where "DP_MAX_ITEMS_DP = 24"

text \<open>
  An item is a pair \<open>(id, cents)\<close>. \<^verbatim>\<open>enforce_mitm_budget\<close> (lines 404 to 411): the loop
  \<^verbatim>\<open>while (1 << (n // 2)) > MITM_STATE_BUDGET and n > 2: n -= 2\<close> is \<open>budget_len\<close>.
\<close>

function budget_len :: "nat \<Rightarrow> nat" where
  "budget_len n = (if 2 ^ (n div 2) > MITM_STATE_BUDGET \<and> n > 2 then budget_len (n - 2) else n)"
  by pat_completeness auto
termination
proof (relation "measure (\<lambda>n. n)")
  show "wf (measure (\<lambda>n. n))" by simp
next
  fix n :: nat
  assume "MITM_STATE_BUDGET < 2 ^ (n div 2) \<and> 2 < n"
  then have "2 < n" by (rule conjunct2)
  then show "(n - 2, n) \<in> measure (\<lambda>n. n)" by simp
qed

declare budget_len.simps [simp del]

lemma budget_small: "n \<le> 35 \<Longrightarrow> \<not> (2::nat) ^ (n div 2) > MITM_STATE_BUDGET"
proof -
  assume "n \<le> 35"
  then have "n div 2 \<le> 17" by simp
  then have "(2::nat) ^ (n div 2) \<le> 2 ^ 17" by (rule power_increasing) simp
  then show ?thesis by (simp add: MITM_STATE_BUDGET_def)
qed

lemma budget_large: "36 \<le> n \<Longrightarrow> (2::nat) ^ (n div 2) > MITM_STATE_BUDGET"
proof -
  assume "36 \<le> n"
  then have "18 \<le> n div 2" by simp
  then have "(2::nat) ^ 18 \<le> 2 ^ (n div 2)" by (rule power_increasing) simp
  then show ?thesis by (simp add: MITM_STATE_BUDGET_def)
qed

lemma budget_len_closed [code]:
  "budget_len n = (if n \<le> 35 then n else if even n then 34 else 35)"
proof (induction n rule: budget_len.induct)
  case (1 n)
  show ?case
  proof (cases "n \<le> 35")
    case True
    then show ?thesis using budget_small[OF True] by (subst budget_len.simps) simp
  next
    case False
    then have big: "(2::nat) ^ (n div 2) > MITM_STATE_BUDGET" and n2: "2 < n"
      using budget_large[of n] by simp_all
    have "budget_len n = budget_len (n - 2)"
      using big n2 by (subst budget_len.simps) simp
    also have "\<dots> = (if n - 2 \<le> 35 then n - 2 else if even (n - 2) then 34 else 35)"
      using "1.IH" big n2 by simp
    also have "\<dots> = (if even n then 34 else 35)"
      using False by (auto elim!: oddE evenE) presburger+
    finally show ?thesis using False by simp
  qed
qed

definition enforce_mitm_budget :: "(int \<times> int) list \<Rightarrow> (int \<times> int) list" where
  "enforce_mitm_budget items =
     (let n = length items in if n \<le> 2 then items else take (budget_len n) items)"

text \<open>
  \<^verbatim>\<open>subset_mitm\<close> (lines 413 to 454). \<open>mask_pick msk L\<close> is the body of the loop over
  the masks: the items \<^verbatim>\<open>L[i]\<close> with \<^verbatim>\<open>(msk >> i) & 1\<close>, as the pair of their sum and
  their ids. \<open>best_step\<close> is one round of the loop that fills the dictionary \<^verbatim>\<open>best\<close>,
  \<open>find_left\<close> is the final loop over \<^verbatim>\<open>left\<close>.
\<close>

definition mask_items :: "nat \<Rightarrow> (int \<times> int) list \<Rightarrow> (int \<times> int) list" where
  "mask_items msk L = map (\<lambda>i. L ! i) (filter (\<lambda>i. (msk div 2 ^ i) mod 2 = 1) [0..<length L])"

definition mask_pick :: "nat \<Rightarrow> (int \<times> int) list \<Rightarrow> int \<times> int list" where
  "mask_pick msk L = (sum_list (map snd (mask_items msk L)), map fst (mask_items msk L))"

definition best_step :: "(int \<times> int) list \<Rightarrow> nat \<Rightarrow> (int \<rightharpoonup> int list) \<Rightarrow> (int \<rightharpoonup> int list)" where
  "best_step R msk best =
     (case mask_pick msk R of (s, ids) \<Rightarrow>
        (case best s of
           None \<Rightarrow> best(s \<mapsto> ids)
         | Some prev \<Rightarrow> if length ids < length prev then best(s \<mapsto> ids) else best))"

fun find_left :: "int \<Rightarrow> (int \<rightharpoonup> int list) \<Rightarrow> (int \<times> int list) list \<Rightarrow> int list option" where
  "find_left target_cents best [] = None"
| "find_left target_cents best ((s, ids1) # left) =
     (case best (target_cents - s) of
        Some ids2 \<Rightarrow> Some (ids1 @ ids2)
      | None \<Rightarrow> find_left target_cents best left)"

definition subset_mitm :: "int \<Rightarrow> (int \<times> int) list \<Rightarrow> int list option" where
  "subset_mitm target_cents items0 =
     (if items0 = [] then None
      else
        let items = enforce_mitm_budget items0;
            n = length items
        in if n = 0 then None
           else
             let m = n div 2;
                 L = take m items;
                 R = drop m items;
                 left = map (\<lambda>msk. mask_pick msk L) [0..<2 ^ length L];
                 best = fold (best_step R) [0..<2 ^ length R] Map.empty
             in find_left target_cents best left)"

text \<open>
  \<^verbatim>\<open>subset_dp\<close> (lines 456 to 486). The state of the loops is the pair of the lists
  \<^verbatim>\<open>dp\<close> and \<^verbatim>\<open>used\<close>, both of length \<^verbatim>\<open>abs_target + 1\<close>; \<open>dp_cell\<close> is the body of the
  inner loop at the index \<open>s\<close>, \<open>dp_item\<close> the body of the outer loop.
\<close>

definition dp_cell :: "int \<Rightarrow> nat \<Rightarrow> nat \<Rightarrow> bool list \<times> int list list \<Rightarrow> bool list \<times> int list list" where
  "dp_cell tid c_abs s st =
     (case st of (dp, used) \<Rightarrow>
        if dp ! (s - c_abs) then (dp[s := True], used[s := used ! (s - c_abs) @ [tid]])
        else (dp, used))"

definition dp_item :: "nat \<Rightarrow> int \<times> int \<Rightarrow> bool list \<times> int list list \<Rightarrow> bool list \<times> int list list" where
  "dp_item abs_target item st =
     (case item of (tid, c) \<Rightarrow>
        let c_abs = nat \<bar>c\<bar> in
        if c_abs > abs_target then st
        else fold (dp_cell tid c_abs) (rev [c_abs..<abs_target + 1]) st)"

definition subset_dp :: "int \<Rightarrow> (int \<times> int) list \<Rightarrow> int list option" where
  "subset_dp target items =
     (if target = 0 then Some []
      else
        let abs_target = nat \<bar>target\<bar> in
        if abs_target > DP_MAX_TARGET_CENTS \<or> length items > DP_MAX_ITEMS_DP then None
        else
          case fold (dp_item abs_target) items
                 ((replicate (abs_target + 1) False)[0 := True], replicate (abs_target + 1) [])
          of (dp, used) \<Rightarrow> if dp ! abs_target then Some (used ! abs_target) else None)"

text \<open>
  A Python \<^verbatim>\<open>dict\<close> iterates its keys in the order of their first insertion:
  \<open>first_seen\<close> keeps the first occurrence of every element of a list.
\<close>

definition first_seen :: "'a list \<Rightarrow> 'a list" where
  "first_seen xs = rev (remdups (rev xs))"

lemma set_first_seen [simp]: "set (first_seen xs) = set xs"
  by (simp add: first_seen_def)

lemma distinct_first_seen [simp]: "distinct (first_seen xs)"
  by (simp add: first_seen_def)

lemma first_seen_distinct: "distinct xs \<Longrightarrow> first_seen xs = xs"
  by (simp add: first_seen_def distinct_remdups_id)

text \<open>
  \<^verbatim>\<open>items_dict = {int(i): int(c) for i, c in items}\<close> keeps the first position and the
  last value of a key; \<^verbatim>\<open>_sum_ok\<close> (lines 488 to 494) adds the values of the keys that
  are in \<^verbatim>\<open>ids\<close>.
\<close>

definition items_dict :: "(int \<times> int) list \<Rightarrow> (int \<times> int) list" where
  "items_dict items =
     map (\<lambda>i. (i, get0 (map_of (rev items)) i)) (first_seen (map fst items))"

definition sum_ok :: "(int \<times> int) list \<Rightarrow> int list \<Rightarrow> int \<Rightarrow> bool" where
  "sum_ok dict ids target_cents \<longleftrightarrow>
     sum_list (map snd (filter (\<lambda>p. fst p \<in> set ids) dict)) = target_cents"

text \<open>
  The search for one target, as \<^verbatim>\<open>solve_same_group\<close> writes it twice (lines 647 to 652
  and 674 to 679): MITM, then the DP fallback when MITM returns \<^verbatim>\<open>None\<close>, then the
  test \<^verbatim>\<open>if sol\<close> (neither \<^verbatim>\<open>None\<close> nor empty) and the post-verification.
\<close>

definition solve_target :: "int \<Rightarrow> (int \<times> int) list \<Rightarrow> int list option" where
  "solve_target cents items =
     (let sol = (case subset_mitm cents items of
                   None \<Rightarrow> subset_dp cents items
                 | Some ids \<Rightarrow> Some ids)
      in case sol of
           None \<Rightarrow> None
         | Some ids \<Rightarrow>
             if ids \<noteq> [] \<and> sum_ok (items_dict items) ids cents then Some ids else None)"

text \<open>
  \<^verbatim>\<open>cap_items_by_value\<close> (lines 496 to 516). \<^verbatim>\<open>by_val\<close> is a dictionary from a value
  of cents to the ids that have it, its keys in the order of their first occurrence;
  Python's sort is stable, also with \<^verbatim>\<open>reverse=True\<close>.
\<close>

definition by_val :: "int list \<Rightarrow> int list \<Rightarrow> (int \<times> int list) list" where
  "by_val ids cents =
     (let zs = zip ids cents
      in map (\<lambda>c. (c, map fst (filter (\<lambda>p. snd p = c) zs))) (first_seen (map snd zs)))"

definition cap_items_by_value :: "int list \<Rightarrow> int list \<Rightarrow> int \<Rightarrow> (int \<times> int) list" where
  "cap_items_by_value ids cents target_cents =
     (let t_abs = nat \<bar>target_cents\<bar>;
          out = concat (map (\<lambda>(c, idlist).
                  let c_abs = max 1 (nat \<bar>c\<bar>);
                      need = t_abs div c_abs;
                      k = min (length idlist) (min (max 1 need) CAP_PER_VALUE)
                  in map (\<lambda>i. (i, c)) (take k idlist)) (by_val ids cents));
          sorted_out = sort_key (\<lambda>x. - \<bar>snd x\<bar>) out
      in if length sorted_out > KSUM_MAX_ITEMS then take KSUM_MAX_ITEMS sorted_out
         else sorted_out)"

subsection \<open>The masks enumerate the subsequences\<close>

lemma mask_items_Nil: "mask_items m [] = []"
  by (simp add: mask_items_def)

lemma mask_items_Cons:
  "mask_items m (x # xs) = (if odd m then [x] else []) @ mask_items (m div 2) xs"
proof -
  let ?P = "\<lambda>i. (m div 2 ^ i) mod 2 = 1"
  have upt: "[0..<length (x # xs)] = 0 # map Suc [0..<length xs]"
    by (simp add: upt_conv_Cons map_Suc_upt del: upt_Suc)
  have P0: "?P 0 \<longleftrightarrow> odd m"
    by (simp add: odd_iff_mod_2_eq_one)
  have PS: "?P \<circ> Suc = (\<lambda>i. ((m div 2) div 2 ^ i) mod 2 = 1)"
    by (simp add: fun_eq_iff div_mult2_eq)
  have "mask_items m (x # xs)
      = map (\<lambda>i. (x # xs) ! i) (filter ?P (0 # map Suc [0..<length xs]))"
    unfolding mask_items_def upt ..
  also have "\<dots> = (if odd m then [x] else [])
      @ map (\<lambda>i. (x # xs) ! i) (map Suc (filter (?P \<circ> Suc) [0..<length xs]))"
    using P0 by (simp add: filter_map)
  also have "map (\<lambda>i. (x # xs) ! i) (map Suc (filter (?P \<circ> Suc) [0..<length xs]))
      = mask_items (m div 2) xs"
    unfolding PS by (simp add: mask_items_def comp_def)
  finally show ?thesis .
qed

lemma subseq_mask_items: "subseq (mask_items m L) L"
  by (induction L arbitrary: m) (auto simp: mask_items_Nil mask_items_Cons intro: list_emb_Cons)

lemma mask_items_complete:
  "subseq ys L \<Longrightarrow> \<exists>m < 2 ^ length L. mask_items m L = ys"
proof (induction L arbitrary: ys)
  case Nil
  then show ?case by (cases ys) (auto simp: mask_items_Nil)
next
  case (Cons x xs)
  show ?case
  proof (cases "subseq ys xs")
    case True
    then obtain m where m: "m < 2 ^ length xs" "mask_items m xs = ys"
      using Cons.IH by blast
    have "mask_items (2 * m) (x # xs) = ys"
      using m(2) by (simp add: mask_items_Cons)
    moreover have "2 * m < 2 ^ length (x # xs)" using m(1) by simp
    ultimately show ?thesis by blast
  next
    case False
    then obtain ys' where ys: "ys = x # ys'" "subseq ys' xs"
      using Cons.prems by (cases ys) (auto split: if_splits)
    then obtain m where m: "m < 2 ^ length xs" "mask_items m xs = ys'"
      using Cons.IH by blast
    have "mask_items (2 * m + 1) (x # xs) = ys"
      using m(2) ys(1) by (simp add: mask_items_Cons)
    moreover have "2 * m + 1 < 2 ^ length (x # xs)" using m(1) by simp
    ultimately show ?thesis by blast
  qed
qed

subsection \<open>The dictionary \<^verbatim>\<open>best\<close> and the final search\<close>

lemma best_step_Some:
  "best_step R m b s = Some ids \<Longrightarrow> b s = Some ids \<or> mask_pick m R = (s, ids)"
  by (auto simp: best_step_def split: prod.splits option.splits if_splits)

lemma best_step_keeps: "b s \<noteq> None \<Longrightarrow> best_step R m b s \<noteq> None"
  by (auto simp: best_step_def split: prod.splits option.splits if_splits)

lemma best_step_adds: "fst (mask_pick m R) = s \<Longrightarrow> best_step R m b s \<noteq> None"
  by (auto simp: best_step_def split: prod.splits option.splits if_splits)

lemma fold_best_Some:
  "fold (best_step R) ms b s = Some ids
     \<Longrightarrow> b s = Some ids \<or> (\<exists>m \<in> set ms. mask_pick m R = (s, ids))"
proof (induction ms arbitrary: b)
  case Nil
  then show ?case by simp
next
  case (Cons m ms)
  then have "best_step R m b s = Some ids \<or> (\<exists>m \<in> set ms. mask_pick m R = (s, ids))"
    by simp
  then show ?case using best_step_Some[of R m b s ids] by auto
qed

lemma fold_best_keeps: "b s \<noteq> None \<Longrightarrow> fold (best_step R) ms b s \<noteq> None"
proof (induction ms arbitrary: b)
  case Nil
  then show ?case by simp
next
  case (Cons m ms)
  have "best_step R m b s \<noteq> None" using Cons.prems by (rule best_step_keeps)
  then have "fold (best_step R) ms (best_step R m b) s \<noteq> None" by (rule Cons.IH)
  then show ?case by simp
qed

lemma fold_best_adds:
  "m \<in> set ms \<Longrightarrow> fst (mask_pick m R) = s \<Longrightarrow> fold (best_step R) ms b s \<noteq> None"
proof (induction ms arbitrary: b)
  case Nil
  then show ?case by simp
next
  case (Cons a ms)
  show ?case
  proof (cases "m = a")
    case True
    then have "best_step R a b s \<noteq> None" using Cons.prems(2) by (simp add: best_step_adds)
    then show ?thesis by (simp add: fold_best_keeps)
  next
    case False
    then show ?thesis using Cons by simp
  qed
qed

lemma find_left_Some:
  "find_left t best left = Some ids
     \<Longrightarrow> \<exists>s ids1 ids2. (s, ids1) \<in> set left \<and> best (t - s) = Some ids2 \<and> ids = ids1 @ ids2"
  by (induction t best left rule: find_left.induct) (auto split: option.splits)

lemma find_left_hit:
  "(s, ids1) \<in> set left \<Longrightarrow> best (t - s) \<noteq> None \<Longrightarrow> find_left t best left \<noteq> None"
  by (induction t best left rule: find_left.induct) (auto split: option.splits)

subsection \<open>What \<^verbatim>\<open>subset_mitm\<close> returns\<close>

lemma budget_len_pos: "0 < n \<Longrightarrow> 0 < budget_len n"
  by (simp add: budget_len_closed)

lemma budget_len_le: "budget_len n \<le> n"
  by (simp add: budget_len_closed)

lemma enforce_mitm_budget_Nil_iff: "enforce_mitm_budget items = [] \<longleftrightarrow> items = []"
proof (cases "items = []")
  case True
  then show ?thesis by (simp add: enforce_mitm_budget_def)
next
  case False
  then have "0 < budget_len (length items)" by (simp add: budget_len_pos)
  then show ?thesis using False by (simp add: enforce_mitm_budget_def Let_def)
qed

lemma enforce_mitm_budget_small: "length items \<le> 35 \<Longrightarrow> enforce_mitm_budget items = items"
  by (simp add: enforce_mitm_budget_def Let_def budget_len_closed)

lemma subseq_enforce_mitm_budget: "subseq (enforce_mitm_budget items) items"
  by (auto simp: enforce_mitm_budget_def Let_def intro: prefix_imp_subseq take_is_prefix)

lemma subset_mitm_unfold:
  assumes "items0 \<noteq> []"
  shows "subset_mitm t items0 =
     find_left t
       (fold (best_step (drop (length (enforce_mitm_budget items0) div 2) (enforce_mitm_budget items0)))
          [0..<2 ^ length (drop (length (enforce_mitm_budget items0) div 2) (enforce_mitm_budget items0))]
          Map.empty)
       (map (\<lambda>msk. mask_pick msk (take (length (enforce_mitm_budget items0) div 2) (enforce_mitm_budget items0)))
          [0..<2 ^ length (take (length (enforce_mitm_budget items0) div 2) (enforce_mitm_budget items0))])"
  using assms enforce_mitm_budget_Nil_iff[of items0]
  by (simp add: subset_mitm_def Let_def)

lemma subset_mitm_sound:
  assumes "subset_mitm t items0 = Some ids"
  shows "\<exists>ys. subseq ys (enforce_mitm_budget items0) \<and> sum_list (map snd ys) = t \<and> ids = map fst ys"
proof -
  let ?items = "enforce_mitm_budget items0"
  let ?L = "take (length ?items div 2) ?items" and ?R = "drop (length ?items div 2) ?items"
  have ne: "items0 \<noteq> []" using assms by (auto simp: subset_mitm_def)
  from assms obtain s ids1 ids2 where
    l: "(s, ids1) \<in> set (map (\<lambda>msk. mask_pick msk ?L) [0..<2 ^ length ?L])"
    and b: "fold (best_step ?R) [0..<2 ^ length ?R] Map.empty (t - s) = Some ids2"
    and ids: "ids = ids1 @ ids2"
    unfolding subset_mitm_unfold[OF ne] using find_left_Some by blast
  from l obtain m1 where m1: "mask_pick m1 ?L = (s, ids1)" by auto
  from fold_best_Some[OF b] obtain m2 where m2: "mask_pick m2 ?R = (t - s, ids2)" by auto
  let ?ys = "mask_items m1 ?L @ mask_items m2 ?R"
  have "subseq ?ys (?L @ ?R)"
    by (intro list_emb_append_mono subseq_mask_items)
  then have "subseq ?ys ?items" by simp
  moreover have "sum_list (map snd ?ys) = t"
    using m1 m2 by (simp add: mask_pick_def)
  moreover have "ids = map fst ?ys"
    using m1 m2 ids by (simp add: mask_pick_def)
  ultimately show ?thesis by blast
qed

lemma subset_mitm_complete:
  assumes ne: "items0 \<noteq> []"
    and sub: "subseq ys (enforce_mitm_budget items0)"
    and sum: "sum_list (map snd ys) = t"
  shows "subset_mitm t items0 \<noteq> None"
proof -
  let ?items = "enforce_mitm_budget items0"
  let ?L = "take (length ?items div 2) ?items" and ?R = "drop (length ?items div 2) ?items"
  have "subseq ys (?L @ ?R)" using sub by simp
  then obtain ys1 ys2 where ys: "ys = ys1 @ ys2" "subseq ys1 ?L" "subseq ys2 ?R"
    by (rule subseq_appendE)
  obtain m1 where m1: "m1 < 2 ^ length ?L" "mask_items m1 ?L = ys1"
    using mask_items_complete[OF ys(2)] by blast
  obtain m2 where m2: "m2 < 2 ^ length ?R" "mask_items m2 ?R = ys2"
    using mask_items_complete[OF ys(3)] by blast
  let ?s = "sum_list (map snd ys1)"
  have l: "(?s, map fst ys1) \<in> set (map (\<lambda>msk. mask_pick msk ?L) [0..<2 ^ length ?L])"
    using m1 by (force simp: mask_pick_def)
  have "fst (mask_pick m2 ?R) = t - ?s"
    using m2(2) ys(1) sum by (simp add: mask_pick_def)
  moreover have "m2 \<in> set [0..<2 ^ length ?R]" using m2(1) by simp
  ultimately have "fold (best_step ?R) [0..<2 ^ length ?R] Map.empty (t - ?s) \<noteq> None"
    by (rule fold_best_adds[rotated])
  then show ?thesis
    unfolding subset_mitm_unfold[OF ne] using l by (rule find_left_hit[rotated])
qed

subsection \<open>The table of the fallback and the check of the callers\<close>

definition dp_inv :: "nat \<Rightarrow> int set \<Rightarrow> bool list \<times> int list list \<Rightarrow> bool" where
  "dp_inv n X st \<longleftrightarrow> length (fst st) = n \<and> length (snd st) = n \<and> (\<forall>l \<in> set (snd st). set l \<subseteq> X)"

lemma dp_cell_inv:
  assumes "dp_inv n X st" "tid \<in> X" "s < n"
  shows "dp_inv n X (dp_cell tid c_abs s st)"
proof -
  obtain dp used where st: "st = (dp, used)" by (cases st)
  have len: "length dp = n" "length used = n" and sub: "\<forall>l \<in> set used. set l \<subseteq> X"
    using assms(1) by (simp_all add: dp_inv_def st)
  show ?thesis
  proof (cases "dp ! (s - c_abs)")
    case False
    then have "dp_cell tid c_abs s st = st" by (simp add: dp_cell_def st)
    then show ?thesis using assms(1) by simp
  next
    case True
    let ?new = "used ! (s - c_abs) @ [tid]"
    have eq: "dp_cell tid c_abs s st = (dp[s := True], used[s := ?new])"
      using True by (simp add: dp_cell_def st)
    have "s - c_abs < length used" using assms(3) len by simp
    then have "used ! (s - c_abs) \<in> set used" by (rule nth_mem)
    then have "set (used ! (s - c_abs)) \<subseteq> X" using sub by blast
    then have new: "set ?new \<subseteq> X" using assms(2) by simp
    have "\<forall>l \<in> set (used[s := ?new]). set l \<subseteq> X"
    proof
      fix l assume "l \<in> set (used[s := ?new])"
      then have "l \<in> insert ?new (set used)"
        by (rule subsetD[OF set_update_subset_insert])
      then show "set l \<subseteq> X" using new sub by blast
    qed
    then show ?thesis unfolding eq dp_inv_def using len by simp
  qed
qed

lemma fold_dp_cell_inv:
  assumes "dp_inv n X st" "tid \<in> X" "\<forall>s \<in> set ss. s < n"
  shows "dp_inv n X (fold (dp_cell tid c_abs) ss st)"
  using assms
proof (induction ss arbitrary: st)
  case Nil
  then show ?case by simp
next
  case (Cons s ss)
  have "dp_inv n X (dp_cell tid c_abs s st)"
    using Cons.prems by (intro dp_cell_inv) simp_all
  then have "dp_inv n X (fold (dp_cell tid c_abs) ss (dp_cell tid c_abs s st))"
    using Cons.prems by (intro Cons.IH) simp_all
  then show ?case by simp
qed

lemma dp_item_inv:
  assumes "dp_inv (abs_target + 1) X st" "fst item \<in> X"
  shows "dp_inv (abs_target + 1) X (dp_item abs_target item st)"
proof -
  obtain tid c where item: "item = (tid, c)" by (cases item)
  have r: "\<forall>s \<in> set (rev [nat \<bar>c\<bar>..<abs_target + 1]). s < abs_target + 1" by auto
  have t: "tid \<in> X" using assms(2) by (simp add: item)
  have "dp_inv (abs_target + 1) X
          (fold (dp_cell tid (nat \<bar>c\<bar>)) (rev [nat \<bar>c\<bar>..<abs_target + 1]) st)"
    by (rule fold_dp_cell_inv[OF assms(1) t r])
  then show ?thesis using assms(1) by (simp add: dp_item_def item Let_def del: upt_Suc)
qed

lemma fold_dp_item_inv:
  assumes "dp_inv (abs_target + 1) X st" "fst ` set items \<subseteq> X"
  shows "dp_inv (abs_target + 1) X (fold (dp_item abs_target) items st)"
  using assms
proof (induction items arbitrary: st)
  case Nil
  then show ?case by simp
next
  case (Cons it items)
  have "dp_inv (abs_target + 1) X (dp_item abs_target it st)"
    using Cons.prems by (intro dp_item_inv) simp_all
  then have "dp_inv (abs_target + 1) X (fold (dp_item abs_target) items (dp_item abs_target it st))"
    using Cons.prems by (intro Cons.IH) simp_all
  then show ?case by simp
qed

lemma dp_inv_init:
  "dp_inv (n + 1) X ((replicate (n + 1) False)[0 := True], replicate (n + 1) [])"
  by (simp add: dp_inv_def)

lemma subseq_imp_set_subset: "subseq xs ys \<Longrightarrow> set xs \<subseteq> set ys"
  by (induction rule: list_emb.induct) auto

lemma subset_dp_unfold:
  assumes "t \<noteq> 0" "\<not> (nat \<bar>t\<bar> > DP_MAX_TARGET_CENTS \<or> length items > DP_MAX_ITEMS_DP)"
  shows "subset_dp t items =
    (case fold (dp_item (nat \<bar>t\<bar>)) items
            ((replicate (nat \<bar>t\<bar> + 1) False)[0 := True], replicate (nat \<bar>t\<bar> + 1) []) of
       (dp, used) \<Rightarrow> if dp ! nat \<bar>t\<bar> then Some (used ! nat \<bar>t\<bar>) else None)"
  using assms by (simp add: subset_dp_def Let_def)

lemma subset_dp_ids:
  assumes "subset_dp t items = Some ids"
  shows "set ids \<subseteq> fst ` set items"
proof (cases "t = 0")
  case True
  then show ?thesis using assms by (simp add: subset_dp_def)
next
  case False
  let ?n = "nat \<bar>t\<bar>"
  let ?st = "fold (dp_item ?n) items ((replicate (?n + 1) False)[0 := True], replicate (?n + 1) [])"
  have inv: "dp_inv (?n + 1) (fst ` set items) ?st"
    by (intro fold_dp_item_inv dp_inv_init) simp
  obtain dp used where st: "?st = (dp, used)" by (cases ?st)
  have g: "\<not> (?n > DP_MAX_TARGET_CENTS \<or> length items > DP_MAX_ITEMS_DP)"
    using assms False by (auto simp: subset_dp_def Let_def)
  have "(if dp ! ?n then Some (used ! ?n) else None) = Some ids"
    using assms unfolding subset_dp_unfold[OF False g] st by simp
  then have ids: "ids = used ! ?n" by (simp split: if_splits)
  have "?n < length used" using inv unfolding st dp_inv_def by simp
  then have "used ! ?n \<in> set used" by (rule nth_mem)
  then show ?thesis using inv ids unfolding st dp_inv_def by simp
qed

lemma subset_mitm_ids:
  assumes "subset_mitm t items = Some ids"
  shows "set ids \<subseteq> fst ` set items"
proof -
  from subset_mitm_sound[OF assms] obtain ys where
    ys: "subseq ys (enforce_mitm_budget items)" "ids = map fst ys" by blast
  have "subseq ys items" by (rule subseq_order.order_trans[OF ys(1) subseq_enforce_mitm_budget])
  then have "set ys \<subseteq> set items" by (rule subseq_imp_set_subset)
  then show ?thesis using ys(2) by auto
qed

lemma sum_ok_items_dict:
  "sum_ok (items_dict items) ids t \<longleftrightarrow>
     (\<Sum>i \<in> set ids \<inter> fst ` set items. get0 (map_of (rev items)) i) = t"
proof -
  let ?g = "\<lambda>i. get0 (map_of (rev items)) i"
  have "map snd (filter (\<lambda>p. fst p \<in> set ids) (items_dict items))
          = map ?g (filter (\<lambda>i. i \<in> set ids) (first_seen (map fst items)))"
    by (simp add: items_dict_def filter_map comp_def)
  moreover have "sum_list (map ?g (filter (\<lambda>i. i \<in> set ids) (first_seen (map fst items))))
          = sum ?g (set (filter (\<lambda>i. i \<in> set ids) (first_seen (map fst items))))"
    by (rule sum_list_distinct_conv_sum_set) simp
  moreover have "set (filter (\<lambda>i. i \<in> set ids) (first_seen (map fst items))) = set ids \<inter> fst ` set items"
    by auto
  ultimately show ?thesis by (simp add: sum_ok_def)
qed

lemma solve_target_Some:
  assumes "solve_target t items = Some ids"
  shows "ids \<noteq> [] \<and> set ids \<subseteq> fst ` set items \<and> (\<Sum>i \<in> set ids. get0 (map_of (rev items)) i) = t"
proof -
  have cand: "subset_mitm t items = Some ids \<or> subset_dp t items = Some ids"
    and ne: "ids \<noteq> []" and ok: "sum_ok (items_dict items) ids t"
    using assms by (auto simp: solve_target_def Let_def split: option.splits if_splits)
  have sub: "set ids \<subseteq> fst ` set items"
    using cand subset_mitm_ids subset_dp_ids by blast
  then have "set ids \<inter> fst ` set items = set ids" by blast
  then show ?thesis using ne sub ok by (simp add: sum_ok_items_dict)
qed

lemma filter_subseq_distinct:
  assumes "subseq zs items" "distinct (map fst items)"
  shows "filter (\<lambda>p. fst p \<in> fst ` set zs) items = zs"
  using assms
proof (induction rule: list_emb.induct)
  case (list_emb_Nil ys)
  then show ?case by simp
next
  case (list_emb_Cons xs ys y)
  have "set xs \<subseteq> set ys" using list_emb_Cons.hyps by (intro subseq_imp_set_subset)
  then have "fst y \<notin> fst ` set xs" using list_emb_Cons.prems by auto
  then show ?case using list_emb_Cons by simp
next
  case (list_emb_Cons2 x y xs ys)
  have xy: "x = y" using list_emb_Cons2.hyps by simp
  have "\<And>p. p \<in> set ys \<Longrightarrow> fst p \<noteq> fst y" using list_emb_Cons2.prems by (auto simp: image_iff)
  then have "filter (\<lambda>p. fst p \<in> fst ` set (x # xs)) ys = filter (\<lambda>p. fst p \<in> fst ` set xs) ys"
    by (intro filter_cong) (auto simp: xy)
  then show ?case using list_emb_Cons2 by (simp add: xy)
qed

lemma items_dict_distinct:
  assumes "distinct (map fst items)"
  shows "items_dict items = items"
proof -
  have "\<And>p. p \<in> set items \<Longrightarrow> get0 (map_of (rev items)) (fst p) = snd p"
  proof -
    fix p assume "p \<in> set items"
    then have "(fst p, snd p) \<in> set (rev items)" by simp
    moreover have "distinct (map fst (rev items))" using assms by (simp add: rev_map[symmetric])
    ultimately have "map_of (rev items) (fst p) = Some (snd p)" by (rule map_of_is_SomeI[rotated])
    then show "get0 (map_of (rev items)) (fst p) = snd p" by (simp add: get0_def)
  qed
  then have "map (\<lambda>p. (fst p, get0 (map_of (rev items)) (fst p))) items = map (\<lambda>p. p) items"
    by (intro map_cong) simp_all
  then show ?thesis using assms by (simp add: items_dict_def comp_def first_seen_distinct)
qed

lemma solve_target_None:
  assumes d: "distinct (map fst items)" and t: "t \<noteq> 0" and n: "solve_target t items = None"
    and sub: "subseq ys (enforce_mitm_budget items)"
  shows "sum_list (map snd ys) \<noteq> t"
proof
  assume sum: "sum_list (map snd ys) = t"
  have ne: "items \<noteq> []"
  proof
    assume "items = []"
    then have "ys = []" using sub by (simp add: enforce_mitm_budget_def)
    then show False using sum t by simp
  qed
  from subset_mitm_complete[OF ne sub sum] obtain ids where m: "subset_mitm t items = Some ids" by blast
  from subset_mitm_sound[OF m] obtain zs where
    zs: "subseq zs (enforce_mitm_budget items)" "sum_list (map snd zs) = t" "ids = map fst zs" by blast
  have "subseq zs items" by (rule subseq_order.order_trans[OF zs(1) subseq_enforce_mitm_budget])
  then have f: "filter (\<lambda>p. fst p \<in> fst ` set zs) items = zs" using d by (rule filter_subseq_distinct)
  have ok: "sum_ok (items_dict items) ids t"
    using f zs(2) by (simp add: sum_ok_def items_dict_distinct[OF d] zs(3))
  have "ids \<noteq> []" using zs(2,3) t by auto
  then have "solve_target t items = Some ids" using ok by (simp add: solve_target_def m)
  then show False using n by simp
qed

lemma subseq_sum_le:
  assumes "subseq ys xs" "\<forall>x \<in> set xs. 0 \<le> snd x"
  shows "sum_list (map snd ys) \<le> sum_list (map snd (xs :: ('a \<times> int) list))"
  using assms
proof (induction rule: list_emb.induct)
  case (list_emb_Nil ys)
  then have "0 \<le> sum_list (map snd ys)" by (intro sum_list_nonneg) auto
  then show ?case by simp
next
  case (list_emb_Cons xs ys y)
  then show ?case by auto
next
  case (list_emb_Cons2 x y xs ys)
  then show ?case by auto
qed

definition ex_items36 :: "(int \<times> int) list" where
  "ex_items36 = map (\<lambda>i. (int i, 2)) [1..<5] @ map (\<lambda>i. (int i, 1)) [5..<37]"

lemma ex_items36_length: "length ex_items36 = 36"
  by (simp add: ex_items36_def)

lemma ex_items36_budget: "enforce_mitm_budget ex_items36 = take 34 ex_items36"
  by (simp add: enforce_mitm_budget_def Let_def ex_items36_length budget_len_closed)

lemma ex_items36_take_sum: "sum_list (map snd (take 34 ex_items36)) = 38"
  by (simp add: ex_items36_def upt_rec)

lemma ex_items36_nonneg: "\<forall>x \<in> set (take 34 ex_items36). 0 \<le> snd x"
proof
  fix x assume "x \<in> set (take 34 ex_items36)"
  then have "x \<in> set ex_items36" by (rule in_set_takeD)
  then show "0 \<le> snd x" by (auto simp: ex_items36_def)
qed

lemma ex_items36_mitm: "subset_mitm 40 ex_items36 = None"
proof (rule ccontr)
  assume "subset_mitm 40 ex_items36 \<noteq> None"
  then obtain ids where "subset_mitm 40 ex_items36 = Some ids" by blast
  from subset_mitm_sound[OF this] obtain ys where
    ys: "subseq ys (take 34 ex_items36)" "sum_list (map snd ys) = 40"
    unfolding ex_items36_budget by blast
  have "sum_list (map snd ys) \<le> 38"
    using subseq_sum_le[OF ys(1) ex_items36_nonneg] by (simp add: ex_items36_take_sum)
  then show False using ys(2) by simp
qed

lemma ex_items36_dp: "subset_dp 40 ex_items36 = None"
  by (simp add: subset_dp_def Let_def ex_items36_length DP_MAX_ITEMS_DP_def)

lemma ex_items36_sum: "sum_list (map snd ex_items36) = 40"
  by (simp add: ex_items36_def upt_rec)

lemma ex_items36_distinct: "distinct (map fst ex_items36)"
  by (simp add: ex_items36_def upt_rec)

lemma ex_items36_cap: "cap_items_by_value (map fst ex_items36) (map snd ex_items36) 40 = ex_items36"
  by code_simp

lemma ex_mitm_miss: "subset_mitm 200001 [(1, 5)] = None"
  by code_simp

lemma ex_dp_abs: "subset_dp 1 [(7, - 1)] = Some [7]"
  by (simp add: subset_dp_def dp_item_def dp_cell_def Let_def DP_MAX_ITEMS_DP_def DP_MAX_TARGET_CENTS_def)

lemma ex_mitm_abs: "subset_mitm 1 [(7, - 1)] = None"
  by code_simp

lemma ex_solve_300: "solve_target 300 [(1, 100), (2, 200), (3, 0)] = Some [1, 2]"
  by code_simp

subsection \<open>The fallback after a miss of the meet-in-the-middle search\<close>

text \<open>
  Claim C9. Every caller runs \<^verbatim>\<open>subset_dp\<close> only when \<^verbatim>\<open>subset_mitm\<close> returned \<^verbatim>\<open>None\<close>
  (\<^verbatim>\<open>if sol is None: sol = subset_dp(...)\<close>). In such a call, when the absolute target is
  above \<^verbatim>\<open>DP_MAX_TARGET_CENTS = 200000\<close> or there are more than \<^verbatim>\<open>DP_MAX_ITEMS_DP = 24\<close>
  items, \<^verbatim>\<open>subset_dp\<close> returns \<^verbatim>\<open>None\<close>: an ordinary value, no exception. The target zero,
  which \<^verbatim>\<open>subset_dp\<close> answers with the empty list before it looks at the budgets, cannot
  reach the fallback with more than 24 items, because the meet-in-the-middle search finds
  the empty subset of any non-empty list.
\<close>

theorem subset_dp_budget_exceeded:
  assumes "subset_mitm t items = None"
    and "\<bar>t\<bar> > 200000 \<or> length items > 24"
  shows "subset_dp t items = None"
proof -
  have "t \<noteq> 0"
  proof
    assume t0: "t = 0"
    then have "length items > 24" using assms(2) by simp
    then have ne: "items \<noteq> []" by auto
    have "subseq [] (enforce_mitm_budget items)" by simp
    moreover have "sum_list (map snd ([] :: (int \<times> int) list)) = t" using t0 by simp
    ultimately have "subset_mitm t items \<noteq> None" by (rule subset_mitm_complete[OF ne])
    then show False using assms(1) by simp
  qed
  moreover have "nat \<bar>t\<bar> > DP_MAX_TARGET_CENTS \<or> length items > DP_MAX_ITEMS_DP"
    using assms(2) by (auto simp: DP_MAX_TARGET_CENTS_def DP_MAX_ITEMS_DP_def)
  ultimately show ?thesis unfolding subset_dp_def Let_def by (simp only: if_True if_False)
qed

theorem subset_dp_budget_exceeded_witness:
  "subset_mitm 200001 [(1, 5)] = None \<and> \<bar>200001 :: int\<bar> > 200000 \<and> subset_dp 200001 [(1, 5)] = None"
  using subset_dp_budget_exceeded [of 200001 "[(1, 5)]"] ex_mitm_miss by simp

subsection \<open>Soundness and completeness of the solver\<close>

text \<open>
  Claim C2, as stated, fails in its second half. \<open>ex_items36\<close> is a list of 36 items, four of
  2 cents and thirty-two of 1 cent, which \<^verbatim>\<open>cap_items_by_value\<close> leaves as it is for the
  target 40. The whole list sums to 40, but \<^verbatim>\<open>enforce_mitm_budget\<close> keeps only its first 34
  items, which sum to 38, and \<^verbatim>\<open>subset_dp\<close> refuses a list of more than 24 items: the solver
  reports no solution although a subset of the capped items sums to the target.
\<close>

theorem solve_target_misses_capped_subset:
  "cap_items_by_value (map fst ex_items36) (map snd ex_items36) 40 = ex_items36
   \<and> distinct (map fst ex_items36)
   \<and> subseq ex_items36 ex_items36
   \<and> sum_list (map snd ex_items36) = 40
   \<and> solve_target 40 ex_items36 = None"
  by (simp add: ex_items36_cap ex_items36_distinct ex_items36_sum solve_target_def
      ex_items36_mitm ex_items36_dp)

text \<open>
  Claim C2, amended. For every call of the solver with target \<open>t\<close> on the capped items
  \<open>items\<close>:
  \<^item> a reported solution \<open>ids\<close> is not empty, consists of ids of the items, and the cents
    the items dictionary holds for these ids sum to \<open>t\<close> exactly;
  \<^item> a candidate of the meet-in-the-middle search, or of the fallback after its miss, whose
    cents re-summed from the items dictionary differ from \<open>t\<close> is discarded;
  \<^item> when the ids are pairwise distinct and \<open>t\<close> is not zero (the callers skip a target of
    zero cents), no solution is reported only if no sub-list of the items that
    \<^verbatim>\<open>enforce_mitm_budget\<close> keeps sums to \<open>t\<close>;
  \<^item> \<^verbatim>\<open>enforce_mitm_budget\<close> keeps every item of a list of at most 35 items.
\<close>

theorem solve_target_correct:
  "(solve_target t items = Some ids \<longrightarrow>
      ids \<noteq> [] \<and> set ids \<subseteq> fst ` set items \<and> (\<Sum>i \<in> set ids. get0 (map_of (rev items)) i) = t)
   \<and> ((subset_mitm t items = Some c \<or> subset_mitm t items = None \<and> subset_dp t items = Some c)
        \<and> \<not> sum_ok (items_dict items) c t \<longrightarrow> solve_target t items = None)
   \<and> (distinct (map fst items) \<and> t \<noteq> 0 \<and> solve_target t items = None
        \<and> subseq ys (enforce_mitm_budget items) \<longrightarrow> sum_list (map snd ys) \<noteq> t)
   \<and> (length items \<le> 35 \<longrightarrow> enforce_mitm_budget items = items)"
proof (intro conjI impI)
  assume "solve_target t items = Some ids"
  then show "ids \<noteq> []" "set ids \<subseteq> fst ` set items" "(\<Sum>i \<in> set ids. get0 (map_of (rev items)) i) = t"
    using solve_target_Some by blast+
next
  assume "(subset_mitm t items = Some c \<or> subset_mitm t items = None \<and> subset_dp t items = Some c)
        \<and> \<not> sum_ok (items_dict items) c t"
  then show "solve_target t items = None" by (auto simp: solve_target_def)
next
  assume "distinct (map fst items) \<and> t \<noteq> 0 \<and> solve_target t items = None
        \<and> subseq ys (enforce_mitm_budget items)"
  then show "sum_list (map snd ys) \<noteq> t" using solve_target_None by blast
next
  assume "length items \<le> 35"
  then show "enforce_mitm_budget items = items" by (rule enforce_mitm_budget_small)
qed

theorem solve_target_correct_witness:
  "solve_target 300 [(1, 100), (2, 200), (3, 0)] = Some [1, 2]
   \<and> (\<Sum>i \<in> set [1, 2 :: int]. get0 (map_of (rev [(1, 100), (2, 200), (3, 0)])) i) = 300
   \<and> subset_mitm 1 [(7, - 1)] = None \<and> subset_dp 1 [(7, - 1)] = Some [7]
   \<and> \<not> sum_ok (items_dict [(7, - 1)]) [7] 1 \<and> solve_target 1 [(7, - 1)] = None
   \<and> distinct (map fst [(7 :: int, - 1 :: int)])
   \<and> subseq [(7, - 1)] (enforce_mitm_budget [(7, - 1)])
   \<and> sum_list (map snd [(7 :: int, - 1 :: int)]) \<noteq> 1
   \<and> enforce_mitm_budget [(7, - 1)] = [(7 :: int, - 1 :: int)]"
proof -
  note a = solve_target_correct [of 300 "[(1, 100), (2, 200), (3, 0)]" "[1, 2]" "[]" "[]"]
  note b = solve_target_correct [of 1 "[(7, - 1)]" "[]" "[7]" "[(7, - 1)]"]
  have s: "(\<Sum>i \<in> set [1, 2 :: int]. get0 (map_of (rev [(1, 100), (2, 200), (3, 0)])) i) = 300"
    using a ex_solve_300 by blast
  have nok: "\<not> sum_ok (items_dict [(7, - 1)]) [7] 1"
    by (simp add: sum_ok_def items_dict_def get0_def first_seen_def)
  have n: "solve_target 1 [(7, - 1)] = None"
    using b ex_mitm_abs ex_dp_abs nok by blast
  have e: "enforce_mitm_budget [(7, - 1)] = [(7 :: int, - 1 :: int)]"
    using b by simp
  have d: "distinct (map fst [(7 :: int, - 1 :: int)])" by simp
  have sub: "subseq [(7, - 1)] (enforce_mitm_budget [(7 :: int, - 1 :: int)])"
    unfolding e by simp
  have ne: "sum_list (map snd [(7 :: int, - 1 :: int)]) \<noteq> 1"
    using b d n sub zero_neq_one[where 'a = int] by metis
  show ?thesis
    using ex_solve_300 s ex_mitm_abs ex_dp_abs nok n d sub ne e by blast
qed

section \<open>The loaders\<close>





section \<open>The daily aggregate\<close>

text \<open>
  The last part of \<^verbatim>\<open>transform\<close> (final.py, lines 1996 to 2166) builds the table
  \<^verbatim>\<open>daily\<close> from the validated matches and the two input tables. An account is the
  triple \<^verbatim>\<open>(tenant_id, bank_code, acc_tail)\<close>. The amounts are the floats
  \<^verbatim>\<open>api_cents / 100\<close> and \<^verbatim>\<open>erp_cents / 100\<close> of the loaders; the model computes with them
  as exact rational numbers. \<^verbatim>\<open>Expr.round(2)\<close> belongs to the Polars library and is the
  parameter \<open>rnd\<close> of the functions below. The core window is the pair of constants of
  lines 18 and 19, \<^verbatim>\<open>"2025-08-01"\<close> and \<^verbatim>\<open>"2025-08-31"\<close>, as day ordinals. The join
  with \<^verbatim>\<open>bank_meta\<close>, which only adds the column \<^verbatim>\<open>bank_name\<close>, is left out.
\<close>

type_synonym account = "string \<times> string \<times> string"

definition DATE_FROM :: int where "DATE_FROM = 739464"
definition DATE_TO :: int where "DATE_TO = 739494"

definition api_amount :: "api_row \<Rightarrow> rat" where
  "api_amount r = of_int (api_cents r) / 100"

definition erp_amount :: "erp_row \<Rightarrow> rat" where
  "erp_amount r = of_int (erp_cents r) / 100"

definition api_account :: "api_row \<Rightarrow> account" where
  "api_account r = (a_tenant_id r, a_bank_code r, api_acc_tail r)"

definition erp_account :: "erp_row \<Rightarrow> account" where
  "erp_account r = (e_tenant_id r, e_bank_code r, erp_acc_tail r)"

text \<open>
  \<^verbatim>\<open>unrec_api\<close> and \<^verbatim>\<open>unrec_erp\<close> (lines 1996 to 2021): the anti-joins of the inputs
  with the ids of the matches.
\<close>

definition unrec_api :: "match_row list \<Rightarrow> api_row list \<Rightarrow> api_row list" where
  "unrec_api matches A0 = filter (\<lambda>r. a_row_id r \<notin> set (map api_row_id matches)) A0"

definition unrec_erp :: "match_row list \<Rightarrow> erp_row list \<Rightarrow> erp_row list" where
  "unrec_erp matches E0 = filter (\<lambda>r. e_row_id r \<notin> set (map erp_row_id matches)) E0"

text \<open>
  \<^verbatim>\<open>pair\<close> (lines 2027 to 2048): the inner join of the matches with the API rows on
  \<^verbatim>\<open>api_row_id\<close>, then with the ERP rows on \<^verbatim>\<open>erp_row_id\<close>. A row of \<^verbatim>\<open>pair\<close> takes
  its account from the API row and its date from the ERP row.
\<close>

definition pair :: "match_row list \<Rightarrow> api_row list \<Rightarrow> erp_row list \<Rightarrow> (match_row \<times> api_row \<times> erp_row) list" where
  "pair matches A0 E0 =
     concat (map (\<lambda>(m, a). map (\<lambda>e. (m, a, e)) (filter (\<lambda>e. e_row_id e = erp_row_id m) E0))
       (concat (map (\<lambda>m. map (\<lambda>a. (m, a)) (filter (\<lambda>a. a_row_id a = api_row_id m) A0)) matches)))"

definition pair_key :: "match_row \<times> api_row \<times> erp_row \<Rightarrow> account \<times> int" where
  "pair_key p = (case p of (m, a, e) \<Rightarrow> (api_account a, erp_date e))"

text \<open>
  \<^verbatim>\<open>group_by(keys).agg(col.sum().round(2))\<close>: one row for each key, in the order of first
  appearance, with the rounded sum of the values of the rows of that key.
\<close>

definition group_sum :: "('r \<Rightarrow> 'k) \<Rightarrow> ('r \<Rightarrow> rat) \<Rightarrow> (rat \<Rightarrow> rat) \<Rightarrow> 'r list \<Rightarrow> ('k \<times> rat) list" where
  "group_sum key val rnd rows =
     map (\<lambda>k. (k, rnd (sum_list (map val (filter (\<lambda>r. key r = k) rows))))) (remdups (map key rows))"

text \<open>
  \<^verbatim>\<open>weights\<close> and \<^verbatim>\<open>pair_w\<close> (lines 2081 to 2093): \<^verbatim>\<open>sum_erp_abs\<close> is the sum of
  \<^verbatim>\<open>erp_amt_abs\<close> over the rows of \<^verbatim>\<open>pair\<close> with the same \<^verbatim>\<open>api_row_id\<close>, and
  \<^verbatim>\<open>api_contrib_abs\<close> is the rounded share.
\<close>

definition sum_erp_abs :: "(match_row \<times> api_row \<times> erp_row) list \<Rightarrow> int \<Rightarrow> rat" where
  "sum_erp_abs pr i = sum_list (map (\<lambda>(m, a, e). \<bar>erp_amount e\<bar>) (filter (\<lambda>(m, a, e). api_row_id m = i) pr))"

definition api_share :: "(match_row \<times> api_row \<times> erp_row) list \<Rightarrow> match_row \<times> api_row \<times> erp_row \<Rightarrow> rat" where
  "api_share pr p = (case p of (m, a, e) \<Rightarrow>
     if sum_erp_abs pr (api_row_id m) > 0
     then (\<bar>erp_amount e\<bar> / sum_erp_abs pr (api_row_id m)) * \<bar>api_amount a\<bar>
     else 0)"

definition api_contrib_abs :: "(rat \<Rightarrow> rat) \<Rightarrow> (match_row \<times> api_row \<times> erp_row) list \<Rightarrow> match_row \<times> api_row \<times> erp_row \<Rightarrow> rat" where
  "api_contrib_abs rnd pr p = rnd (api_share pr p)"

definition m_api_daily :: "(rat \<Rightarrow> rat) \<Rightarrow> (match_row \<times> api_row \<times> erp_row) list \<Rightarrow> ((account \<times> int) \<times> rat) list" where
  "m_api_daily rnd pr = group_sum pair_key (api_contrib_abs rnd pr) rnd pr"

text \<open>
  \<^verbatim>\<open>m_erp_daily\<close> (lines 2101 to 2116): the distinct matched ERP ids joined with the ERP
  rows. \<^verbatim>\<open>u_api_daily\<close> and \<^verbatim>\<open>u_erp_daily\<close> (lines 2117 to 2128).
\<close>

definition matched_erp :: "match_row list \<Rightarrow> erp_row list \<Rightarrow> erp_row list" where
  "matched_erp matches E0 =
     concat (map (\<lambda>i. filter (\<lambda>e. e_row_id e = i) E0) (remdups (map erp_row_id matches)))"

definition m_erp_daily :: "(rat \<Rightarrow> rat) \<Rightarrow> match_row list \<Rightarrow> erp_row list \<Rightarrow> ((account \<times> int) \<times> rat) list" where
  "m_erp_daily rnd matches E0 =
     group_sum (\<lambda>e. (erp_account e, erp_date e)) (\<lambda>e. \<bar>erp_amount e\<bar>) rnd (matched_erp matches E0)"

definition u_api_daily :: "(rat \<Rightarrow> rat) \<Rightarrow> api_row list \<Rightarrow> ((account \<times> int) \<times> rat) list" where
  "u_api_daily rnd ua = group_sum (\<lambda>r. (api_account r, api_date r)) (\<lambda>r. \<bar>api_amount r\<bar>) rnd ua"

definition u_erp_daily :: "(rat \<Rightarrow> rat) \<Rightarrow> erp_row list \<Rightarrow> ((account \<times> int) \<times> rat) list" where
  "u_erp_daily rnd ue = group_sum (\<lambda>r. (erp_account r, erp_date r)) (\<lambda>r. \<bar>erp_amount r\<bar>) rnd ue"

text \<open>
  The spine (lines 2130 to 2143): the distinct accounts of the four tables, crossed with
  every date from \<^verbatim>\<open>DATE_FROM\<close> to \<^verbatim>\<open>DATE_TO\<close>.
\<close>

definition spine_dim :: "((account \<times> int) \<times> rat) list \<Rightarrow> ((account \<times> int) \<times> rat) list \<Rightarrow> api_row list \<Rightarrow> erp_row list \<Rightarrow> account list" where
  "spine_dim ma me ua ue =
     remdups (remdups (map (\<lambda>r. fst (fst r)) ma) @ remdups (map (\<lambda>r. fst (fst r)) me)
              @ remdups (map api_account ua) @ remdups (map erp_account ue))"

definition dates :: "int list" where
  "dates = [DATE_FROM..DATE_TO]"

definition spine :: "account list \<Rightarrow> (account \<times> int) list" where
  "spine accs = concat (map (\<lambda>acc. map (\<lambda>d. (acc, d)) dates) accs)"

record daily_row =
  d_account :: account
  d_date :: int
  api_matched_abs :: rat
  erp_matched_abs :: rat
  api_unrec_abs :: rat
  erp_unrec_abs :: rat
  unrec_total_abs :: rat
  unrec_diff :: rat

text \<open>
  A left join with a grouped table, whose keys are distinct, followed by
  \<^verbatim>\<open>fill_null(0.0)\<close>.
\<close>

definition fill_null0 :: "rat option \<Rightarrow> rat" where
  "fill_null0 v = (case v of Some x \<Rightarrow> x | None \<Rightarrow> 0)"

definition daily_of :: "(rat \<Rightarrow> rat) \<Rightarrow> ((account \<times> int) \<times> rat) list \<Rightarrow> ((account \<times> int) \<times> rat) list \<Rightarrow> ((account \<times> int) \<times> rat) list \<Rightarrow> ((account \<times> int) \<times> rat) list \<Rightarrow> account \<times> int \<Rightarrow> daily_row" where
  "daily_of rnd ma me ua ue k =
     (let am = fill_null0 (map_of ma k); em = fill_null0 (map_of me k);
          au = fill_null0 (map_of ua k); eu = fill_null0 (map_of ue k)
      in \<lparr> d_account = fst k, d_date = snd k, api_matched_abs = am, erp_matched_abs = em,
           api_unrec_abs = au, erp_unrec_abs = eu,
           unrec_total_abs = rnd (au + eu), unrec_diff = rnd (eu - au) \<rparr>)"

text \<open>
  \<^verbatim>\<open>daily\<close> (lines 2050 to 2166): the empty table when \<^verbatim>\<open>pair\<close> is empty, the spine with
  its four totals otherwise.
\<close>

definition daily :: "(rat \<Rightarrow> rat) \<Rightarrow> match_row list \<Rightarrow> api_row list \<Rightarrow> erp_row list \<Rightarrow> daily_row list" where
  "daily rnd matches A0 E0 =
     (let pr = pair matches A0 E0 in
      if pr = [] then []
      else let ma = m_api_daily rnd pr;
               me = m_erp_daily rnd matches E0;
               ua = unrec_api matches A0;
               ue = unrec_erp matches E0
           in map (daily_of rnd ma me (u_api_daily rnd ua) (u_erp_daily rnd ue))
                (spine (spine_dim ma me ua ue)))"

text \<open>
  Rounding to two decimals in exact arithmetic, a tie to the even neighbour: the instance
  of \<open>rnd\<close> for the examples.
\<close>

definition round2 :: "rat \<Rightarrow> rat" where
  "round2 x =
     (let y = x * 100; f = \<lfloor>y\<rfloor>; r = y - of_int f
      in of_int (if r < 1 / 2 then f else if r > 1 / 2 then f + 1
                 else if even f then f else f + 1) / 100)"

definition ex_a :: "int \<Rightarrow> int \<Rightarrow> int \<Rightarrow> api_row" where
  "ex_a i c d = \<lparr> a_row_id = i, api_uid = ''u'', a_tenant_id = ''t'', a_bank_code = ''341'',
     api_acc_tail = ''1234'', api_date = d, api_cents = c, api_is_tax = False,
     api_is_bankfees = False, api_is_rent_d1 = False, api_is_rent = False \<rparr>"

definition ex_e :: "int \<Rightarrow> int \<Rightarrow> int \<Rightarrow> erp_row" where
  "ex_e i c d = \<lparr> e_row_id = i, erp_uid = ''v'', e_tenant_id = ''t'', e_bank_code = ''341'',
     erp_acc_tail = ''1234'', erp_date = d, erp_cents = c \<rparr>"

subsection \<open>The tables as sets\<close>

lemma set_pair:
  "set (pair matches A0 E0) =
     {(m, a, e). m \<in> set matches \<and> a \<in> set A0 \<and> e \<in> set E0
        \<and> a_row_id a = api_row_id m \<and> e_row_id e = erp_row_id m}"
  by (auto simp: pair_def)

lemma set_matched_erp:
  "set (matched_erp matches E0) = {e \<in> set E0. e_row_id e \<in> erp_row_id ` set matches}"
  by (auto simp: matched_erp_def)

lemma group_sum_keys: "fst ` set (group_sum key val rnd rows) = key ` set rows"
  by (force simp: group_sum_def)

lemma map_of_group_sum_None:
  "k \<notin> key ` set rows \<Longrightarrow> map_of (group_sum key val rnd rows) k = None"
  using group_sum_keys[of key val rnd rows] by (simp add: map_of_eq_None_iff)

lemma set_dates: "set dates = {DATE_FROM..DATE_TO}"
  by (simp add: dates_def)

lemma set_spine: "set (spine accs) = set accs \<times> {DATE_FROM..DATE_TO}"
  by (auto simp: spine_def set_dates)

lemma set_spine_dim:
  "set (spine_dim ma me ua ue) =
     (\<lambda>r. fst (fst r)) ` set ma \<union> (\<lambda>r. fst (fst r)) ` set me \<union> api_account ` set ua \<union> erp_account ` set ue"
  by (auto simp: spine_dim_def)

lemma daily_nonempty:
  assumes "pair matches A0 E0 \<noteq> []"
  shows "daily rnd matches A0 E0 =
     map (daily_of rnd (m_api_daily rnd (pair matches A0 E0)) (m_erp_daily rnd matches E0)
            (u_api_daily rnd (unrec_api matches A0)) (u_erp_daily rnd (unrec_erp matches E0)))
       (spine (spine_dim (m_api_daily rnd (pair matches A0 E0)) (m_erp_daily rnd matches E0)
            (unrec_api matches A0) (unrec_erp matches E0)))"
  using assms by (simp add: daily_def Let_def)

lemma api_account_in_spine:
  assumes valid: "\<forall>m \<in> set matches. erp_row_id m \<in> e_row_id ` set E0"
    and a: "a \<in> set A0"
  shows "api_account a \<in> set (spine_dim (m_api_daily rnd (pair matches A0 E0)) me
            (unrec_api matches A0) ue)"
proof (cases "a_row_id a \<in> api_row_id ` set matches")
  case False
  then have "a \<in> set (unrec_api matches A0)" using a by (simp add: unrec_api_def)
  then show ?thesis unfolding set_spine_dim by blast
next
  case True
  then obtain m where m: "m \<in> set matches" "a_row_id a = api_row_id m" by auto
  then obtain e where e: "e \<in> set E0" "e_row_id e = erp_row_id m" using valid by force
  have "(m, a, e) \<in> set (pair matches A0 E0)" using m e a by (simp add: set_pair)
  then have "pair_key (m, a, e) \<in> pair_key ` set (pair matches A0 E0)" by (rule imageI)
  then have "(api_account a, erp_date e) \<in> fst ` set (m_api_daily rnd (pair matches A0 E0))"
    by (simp add: m_api_daily_def group_sum_keys pair_key_def)
  then have "api_account a \<in> (\<lambda>r. fst (fst r)) ` set (m_api_daily rnd (pair matches A0 E0))"
    by force
  then show ?thesis unfolding set_spine_dim by blast
qed

lemma erp_account_in_spine:
  assumes e: "e \<in> set E0"
  shows "erp_account e \<in> set (spine_dim ma (m_erp_daily rnd matches E0) ua (unrec_erp matches E0))"
proof (cases "e_row_id e \<in> erp_row_id ` set matches")
  case False
  then have "e \<in> set (unrec_erp matches E0)" using e by (simp add: unrec_erp_def)
  then show ?thesis unfolding set_spine_dim by blast
next
  case True
  then have "e \<in> set (matched_erp matches E0)" using e by (simp add: set_matched_erp)
  then have "(erp_account e, erp_date e) \<in> (\<lambda>e. (erp_account e, erp_date e)) ` set (matched_erp matches E0)"
    by (rule imageI)
  then have "(erp_account e, erp_date e) \<in> fst ` set (m_erp_daily rnd matches E0)"
    by (simp add: m_erp_daily_def group_sum_keys)
  then have "erp_account e \<in> (\<lambda>r. fst (fst r)) ` set (m_erp_daily rnd matches E0)"
    by force
  then show ?thesis unfolding set_spine_dim by blast
qed

lemma daily_of_quiet:
  assumes "k \<notin> fst ` set ma" "k \<notin> fst ` set me" "k \<notin> fst ` set ua" "k \<notin> fst ` set ue"
  shows "api_matched_abs (daily_of rnd ma me ua ue k) = 0 \<and> erp_matched_abs (daily_of rnd ma me ua ue k) = 0
     \<and> api_unrec_abs (daily_of rnd ma me ua ue k) = 0 \<and> erp_unrec_abs (daily_of rnd ma me ua ue k) = 0"
  using assms by (simp add: daily_of_def Let_def fill_null0_def map_of_eq_None_iff[THEN iffD2])

subsection \<open>The spine is dense when some match joins two rows\<close>

text \<open>
  Claim C7, as stated, fails when no match joins an API row to an ERP row: \<^verbatim>\<open>pair\<close> is
  empty and \<^verbatim>\<open>daily\<close> is the empty table, although the inputs have an account and the
  window has dates.
\<close>

theorem daily_empty_without_pair:
  "api_account (ex_a 0 500 DATE_FROM) \<in> api_account ` set [ex_a 0 500 DATE_FROM]
   \<and> DATE_FROM \<in> {DATE_FROM..DATE_TO}
   \<and> daily round2 [] [ex_a 0 500 DATE_FROM] [] = []"
  by (simp add: daily_def pair_def DATE_FROM_def DATE_TO_def)

text \<open>
  Claim C7, amended. When at least one match joins an API row and an ERP row of the inputs
  (the table \<^verbatim>\<open>pair\<close> is not empty) and every match names the id of an ERP row of the
  input, then for every account of an input row and every date in
  \<^verbatim>\<open>[DATE_FROM, DATE_TO]\<close> the daily table has a row for that account and date; its four
  totals are zero when no input row and no row of \<^verbatim>\<open>pair\<close> has that account and date.
  When \<^verbatim>\<open>pair\<close> is empty the daily table is empty.
\<close>

theorem daily_dense_spine:
  assumes "pair matches A0 E0 \<noteq> []"
    and "\<forall>m \<in> set matches. erp_row_id m \<in> e_row_id ` set E0"
    and "acc \<in> api_account ` set A0 \<union> erp_account ` set E0"
    and "d \<in> {DATE_FROM..DATE_TO}"
  shows "\<exists>row \<in> set (daily rnd matches A0 E0). d_account row = acc \<and> d_date row = d
     \<and> ((\<forall>a \<in> set A0. (api_account a, api_date a) \<noteq> (acc, d))
          \<and> (\<forall>e \<in> set E0. (erp_account e, erp_date e) \<noteq> (acc, d))
          \<and> (\<forall>p \<in> set (pair matches A0 E0). pair_key p \<noteq> (acc, d))
        \<longrightarrow> api_matched_abs row = 0 \<and> erp_matched_abs row = 0
            \<and> api_unrec_abs row = 0 \<and> erp_unrec_abs row = 0)"
proof -
  let ?pr = "pair matches A0 E0"
  let ?ma = "m_api_daily rnd ?pr" and ?me = "m_erp_daily rnd matches E0"
  let ?ua = "unrec_api matches A0" and ?ue = "unrec_erp matches E0"
  let ?row = "daily_of rnd ?ma ?me (u_api_daily rnd ?ua) (u_erp_daily rnd ?ue) (acc, d)"
  have acc: "acc \<in> set (spine_dim ?ma ?me ?ua ?ue)"
    using assms(3) api_account_in_spine[OF assms(2)] erp_account_in_spine by blast
  then have "(acc, d) \<in> set (spine (spine_dim ?ma ?me ?ua ?ue))"
    using assms(4) by (simp add: set_spine)
  then have "?row \<in> set (daily rnd matches A0 E0)"
    unfolding daily_nonempty[OF assms(1)] by simp
  moreover have "d_account ?row = acc" "d_date ?row = d"
    by (simp_all add: daily_of_def Let_def)
  moreover have "api_matched_abs ?row = 0 \<and> erp_matched_abs ?row = 0
            \<and> api_unrec_abs ?row = 0 \<and> erp_unrec_abs ?row = 0"
    if q: "(\<forall>a \<in> set A0. (api_account a, api_date a) \<noteq> (acc, d))
          \<and> (\<forall>e \<in> set E0. (erp_account e, erp_date e) \<noteq> (acc, d))
          \<and> (\<forall>p \<in> set ?pr. pair_key p \<noteq> (acc, d))"
  proof (rule daily_of_quiet)
    show "(acc, d) \<notin> fst ` set ?ma"
      using q by (auto simp: m_api_daily_def group_sum_keys)
    show "(acc, d) \<notin> fst ` set ?me"
      using q by (auto simp: m_erp_daily_def group_sum_keys set_matched_erp)
    show "(acc, d) \<notin> fst ` set (u_api_daily rnd ?ua)"
      using q by (auto simp: u_api_daily_def group_sum_keys unrec_api_def)
    show "(acc, d) \<notin> fst ` set (u_erp_daily rnd ?ue)"
      using q by (auto simp: u_erp_daily_def group_sum_keys unrec_erp_def)
  qed
  ultimately show ?thesis by blast
qed

theorem daily_dense_spine_witness:
  "pair [ex_match 0 0] [ex_a 0 1000 DATE_FROM] [ex_e 0 1000 DATE_FROM] \<noteq> []
   \<and> DATE_TO \<in> {DATE_FROM..DATE_TO}
   \<and> (\<exists>row \<in> set (daily round2 [ex_match 0 0] [ex_a 0 1000 DATE_FROM] [ex_e 0 1000 DATE_FROM]).
         d_account row = (''t'', ''341'', ''1234'') \<and> d_date row = DATE_TO
         \<and> api_matched_abs row = 0 \<and> erp_matched_abs row = 0
         \<and> api_unrec_abs row = 0 \<and> erp_unrec_abs row = 0)"
proof -
  let ?M = "[ex_match 0 0]" and ?A = "[ex_a 0 1000 DATE_FROM]" and ?E = "[ex_e 0 1000 DATE_FROM]"
  let ?acc = "(''t'', ''341'', ''1234'')"
  have p: "pair ?M ?A ?E = [(ex_match 0 0, ex_a 0 1000 DATE_FROM, ex_e 0 1000 DATE_FROM)]"
    by (simp add: pair_def ex_match_def ex_a_def ex_e_def)
  have h1: "pair ?M ?A ?E \<noteq> []" by (simp add: p)
  have h2: "\<forall>m \<in> set ?M. erp_row_id m \<in> e_row_id ` set ?E"
    by (simp add: ex_match_def ex_e_def)
  have h3: "?acc \<in> api_account ` set ?A \<union> erp_account ` set ?E"
    by (simp add: api_account_def ex_a_def)
  have h4: "DATE_TO \<in> {DATE_FROM..DATE_TO}" by (simp add: DATE_FROM_def DATE_TO_def)
  have ne: "DATE_FROM \<noteq> DATE_TO" by (simp add: DATE_FROM_def DATE_TO_def)
  have q: "(\<forall>a \<in> set ?A. (api_account a, api_date a) \<noteq> (?acc, DATE_TO))
          \<and> (\<forall>e \<in> set ?E. (erp_account e, erp_date e) \<noteq> (?acc, DATE_TO))
          \<and> (\<forall>p \<in> set (pair ?M ?A ?E). pair_key p \<noteq> (?acc, DATE_TO))"
    using ne unfolding p by (simp add: pair_key_def ex_a_def ex_e_def)
  from daily_dense_spine [OF h1 h2 h3 h4, of round2] q h1 h4 show ?thesis by blast
qed

subsection \<open>The total of the matched API amounts\<close>

definition whole_cents :: "rat \<Rightarrow> bool" where
  "whole_cents x \<longleftrightarrow> of_int \<lfloor>x * 100\<rfloor> = x * 100"

lemma whole_cents_iff: "whole_cents x \<longleftrightarrow> (\<exists>n :: int. x * 100 = of_int n)"
  by (simp add: whole_cents_def)

lemma whole_cents_0: "whole_cents 0"
  by (simp add: whole_cents_def)

lemma whole_cents_add:
  assumes "whole_cents x" "whole_cents y"
  shows "whole_cents (x + y)"
proof -
  obtain n m :: int where "x * 100 = of_int n" "y * 100 = of_int m"
    using assms unfolding whole_cents_iff by blast
  then have "(x + y) * 100 = of_int (n + m)" by (simp add: algebra_simps)
  then show ?thesis unfolding whole_cents_iff by blast
qed

lemma whole_cents_sum_list: "(\<forall>x \<in> set xs. whole_cents x) \<Longrightarrow> whole_cents (sum_list xs)"
  by (induction xs) (simp_all add: whole_cents_0 whole_cents_add)

lemma round2_whole_cents:
  assumes "whole_cents x"
  shows "round2 x = x"
proof -
  obtain n :: int where n: "x * 100 = of_int n"
    using assms unfolding whole_cents_iff by blast
  have "round2 x = of_int n / 100" by (simp add: round2_def n Let_def)
  also have "\<dots> = x" using n by simp
  finally show ?thesis .
qed

lemma whole_cents_round2: "whole_cents (round2 x)"
proof -
  obtain k :: int where "round2 x = of_int k / 100"
    unfolding round2_def Let_def by blast
  then have "round2 x * 100 = of_int k" by simp
  then show ?thesis unfolding whole_cents_iff by blast
qed

lemma sum_partition:
  fixes val :: "'r \<Rightarrow> rat"
  assumes "finite K" "key ` set rows \<subseteq> K"
  shows "(\<Sum>k \<in> K. sum_list (map val (filter (\<lambda>r. key r = k) rows))) = sum_list (map val rows)"
  using assms(2)
proof (induction rows)
  case Nil
  then show ?case by simp
next
  case (Cons r rows)
  have k: "key r \<in> K" using Cons.prems by simp
  have "(\<Sum>k \<in> K. sum_list (map val (filter (\<lambda>r. key r = k) (r # rows))))
        = (\<Sum>k \<in> K. (if key r = k then val r else 0) + sum_list (map val (filter (\<lambda>r. key r = k) rows)))"
    by (intro sum.cong) simp_all
  also have "\<dots> = (\<Sum>k \<in> K. if key r = k then val r else 0)
                 + (\<Sum>k \<in> K. sum_list (map val (filter (\<lambda>r. key r = k) rows)))"
    by (rule sum.distrib)
  also have "(\<Sum>k \<in> K. if key r = k then val r else 0) = val r"
    using assms(1) k by simp
  also have "(\<Sum>k \<in> K. sum_list (map val (filter (\<lambda>r. key r = k) rows))) = sum_list (map val rows)"
    using Cons by simp
  finally show ?case by simp
qed

lemma group_sum_distinct: "distinct (map fst (group_sum key val rnd rows))"
  by (simp add: group_sum_def comp_def)

lemma group_sum_filter_total:
  fixes val :: "'r \<Rightarrow> rat"
  assumes rnd: "\<forall>x. whole_cents x \<longrightarrow> rnd x = x" and w: "\<forall>r \<in> set rows. whole_cents (val r)"
  shows "sum_list (map snd (filter (\<lambda>r. fst r \<in> S) (group_sum key val rnd rows)))
       = sum_list (map val (filter (\<lambda>r. key r \<in> S) rows))"
proof -
  let ?g = "\<lambda>k. sum_list (map val (filter (\<lambda>r. key r = k) rows))"
  let ?rows' = "filter (\<lambda>r. key r \<in> S) rows"
  let ?ks = "filter (\<lambda>k. k \<in> S) (remdups (map key rows))"
  have g: "rnd (?g k) = ?g k" for k
  proof -
    have "whole_cents (?g k)" using w by (intro whole_cents_sum_list) auto
    then show ?thesis using rnd by blast
  qed
  have "filter (\<lambda>r. fst r \<in> S) (group_sum key val rnd rows) = map (\<lambda>k. (k, rnd (?g k))) ?ks"
    by (simp add: group_sum_def filter_map comp_def)
  then have "sum_list (map snd (filter (\<lambda>r. fst r \<in> S) (group_sum key val rnd rows)))
        = sum_list (map ?g ?ks)"
    by (simp add: comp_def g)
  also have "\<dots> = (\<Sum>k \<in> set ?ks. ?g k)"
    by (rule sum_list_distinct_conv_sum_set) simp
  also have "\<dots> = (\<Sum>k \<in> set ?ks. sum_list (map val (filter (\<lambda>r. key r = k) ?rows')))"
  proof (rule sum.cong[OF refl])
    fix k assume "k \<in> set ?ks"
    then have k: "k \<in> S" by simp
    have "filter (\<lambda>r. key r = k) ?rows' = filter (\<lambda>r. key r = k) rows"
      unfolding filter_filter by (rule filter_cong[OF refl]) (use k in auto)
    then show "?g k = sum_list (map val (filter (\<lambda>r. key r = k) ?rows'))" by simp
  qed
  also have "\<dots> = sum_list (map val ?rows')"
    by (rule sum_partition) auto
  finally show ?thesis .
qed

lemma map_of_filter_keys:
  "map_of (filter (\<lambda>r. fst r \<in> S) t) k = (if k \<in> S then map_of t k else None)"
  by (induction t) auto

lemma lookup_sum:
  fixes t :: "('k \<times> rat) list"
  assumes dt: "distinct (map fst t)" and dk: "distinct ks" and sub: "fst ` set t \<subseteq> set ks"
  shows "sum_list (map (\<lambda>k. fill_null0 (map_of t k)) ks) = sum_list (map snd t)"
proof -
  let ?f = "\<lambda>k. fill_null0 (map_of t k)"
  have "sum_list (map ?f ks) = (\<Sum>k \<in> set ks. ?f k)"
    using dk by (rule sum_list_distinct_conv_sum_set)
  also have "\<dots> = (\<Sum>k \<in> fst ` set t. ?f k)"
  proof (rule sum.mono_neutral_right)
    show "finite (set ks)" by simp
    show "fst ` set t \<subseteq> set ks" by (rule sub)
    show "\<forall>k \<in> set ks - fst ` set t. ?f k = 0"
      by (simp add: fill_null0_def map_of_eq_None_iff[THEN iffD2])
  qed
  also have "\<dots> = (\<Sum>k \<in> set (map fst t). ?f k)" by simp
  also have "\<dots> = sum_list (map ?f (map fst t))"
    using dt by (rule sum_list_distinct_conv_sum_set[symmetric])
  also have "\<dots> = sum_list (map snd t)"
  proof -
    have e: "?f (fst p) = snd p" if "p \<in> set t" for p
    proof -
      have "map_of t (fst p) = Some (snd p)" using dt that by (intro map_of_is_SomeI) simp_all
      then show ?thesis by (simp add: fill_null0_def)
    qed
    have "map (\<lambda>p. ?f (fst p)) t = map snd t"
      by (rule map_cong[OF refl]) (rule e)
    then show ?thesis unfolding map_map comp_def by (rule arg_cong)
  qed
  finally show ?thesis .
qed

lemma distinct_spine: "distinct accs \<Longrightarrow> distinct (spine accs)"
proof (induction accs)
  case Nil
  then show ?case by (simp add: spine_def)
next
  case (Cons a accs)
  have "distinct (map (\<lambda>d. (a, d)) dates)"
    by (simp add: distinct_map dates_def inj_on_def)
  moreover have "distinct (spine accs)" using Cons by simp
  moreover have "set (map (\<lambda>d. (a, d)) dates) \<inter> set (spine accs) = {}"
    using Cons.prems by (auto simp: set_spine)
  ultimately show ?case by (simp add: spine_def)
qed

lemma api_matched_abs_daily_of: "api_matched_abs (daily_of rnd ma me ua ue k) = fill_null0 (map_of ma k)"
  by (simp add: daily_of_def Let_def)

lemma pair_api_row:
  assumes ids: "distinct (map a_row_id A0)" and a: "a \<in> set A0" and p: "p \<in> set (pair matches A0 E0)"
  shows "fst (snd p) = a \<longleftrightarrow> api_row_id (fst p) = a_row_id a"
proof -
  obtain m a' e where pe: "p = (m, a', e)" by (cases p)
  have a': "a' \<in> set A0" "a_row_id a' = api_row_id m" using p by (simp_all add: pe set_pair)
  have "a' = a \<longleftrightarrow> a_row_id a' = a_row_id a"
    using ids a a'(1) by (auto simp: distinct_map inj_on_def)
  then show ?thesis by (simp add: pe a'(2))
qed

lemma lookup_sum_filter:
  fixes t :: "('k \<times> rat) list"
  assumes dt: "distinct (map fst t)" and dk: "distinct ks"
  shows "sum_list (map (\<lambda>k. fill_null0 (map_of t k)) ks)
       = sum_list (map snd (filter (\<lambda>r. fst r \<in> set ks) t))"
proof -
  let ?t' = "filter (\<lambda>r. fst r \<in> set ks) t"
  have e: "map (\<lambda>k. fill_null0 (map_of t k)) ks = map (\<lambda>k. fill_null0 (map_of ?t' k)) ks"
    by (rule map_cong[OF refl]) (simp add: map_of_filter_keys)
  have "sum_list (map (\<lambda>k. fill_null0 (map_of ?t' k)) ks) = sum_list (map snd ?t')"
  proof (rule lookup_sum)
    show "distinct (map fst ?t')" using dt by (rule distinct_map_filter)
    show "distinct ks" by (rule dk)
    show "fst ` set ?t' \<subseteq> set ks" by auto
  qed
  then show ?thesis unfolding e .
qed

lemma sum_list_map_zero:
  fixes f :: "'a \<Rightarrow> rat"
  shows "(\<And>x. x \<in> set xs \<Longrightarrow> f x = 0) \<Longrightarrow> sum_list (map f xs) = 0"
  by (induction xs) auto

lemma sum_erp_abs_nonneg: "0 \<le> sum_erp_abs pr i"
  unfolding sum_erp_abs_def by (rule sum_list_nonneg) auto

lemma sum_erp_abs_pos_matched:
  assumes "0 < sum_erp_abs (pair matches A0 E0) i"
  shows "i \<in> api_row_id ` set matches"
proof (rule ccontr)
  assume n: "i \<notin> api_row_id ` set matches"
  have "filter (\<lambda>(m, a, e). api_row_id m = i) (pair matches A0 E0) = []"
    using n by (auto simp: filter_empty_conv set_pair)
  then have "sum_erp_abs (pair matches A0 E0) i = 0" by (simp add: sum_erp_abs_def)
  then show False using assms by simp
qed

lemma share_of_row:
  assumes ids: "distinct (map a_row_id A0)" and a: "a \<in> set A0"
  shows "sum_list (map (api_share (pair matches A0 E0)) (filter (\<lambda>p. fst (snd p) = a) (pair matches A0 E0)))
       = (if sum_erp_abs (pair matches A0 E0) (a_row_id a) > 0 then \<bar>api_amount a\<bar> else 0)"
proof -
  let ?pr = "pair matches A0 E0"
  let ?mine = "filter (\<lambda>p. fst (snd p) = a) ?pr"
  let ?S = "sum_erp_abs ?pr (a_row_id a)"
  have f: "?mine = filter (\<lambda>(m, a', e). api_row_id m = a_row_id a) ?pr"
    by (rule filter_cong[OF refl]) (auto simp: pair_api_row[OF ids a])
  have S: "?S = sum_list (map (\<lambda>(m, a', e). \<bar>erp_amount e\<bar>) ?mine)"
    by (simp add: sum_erp_abs_def f)
  have id: "api_row_id m = a_row_id a" if "(m, a', e) \<in> set ?mine" for m a' e
    using that by (auto simp: set_pair)
  show ?thesis
  proof (cases "?S > 0")
    case False
    have z: "api_share ?pr p = 0" if "p \<in> set ?mine" for p
    proof -
      obtain m a' e where pe: "p = (m, a', e)" by (cases p)
      have "api_row_id m = a_row_id a" using that id unfolding pe by blast
      then show ?thesis using False by (simp add: api_share_def pe)
    qed
    have "sum_list (map (api_share ?pr) ?mine) = 0"
      by (rule sum_list_map_zero) (rule z)
    then show ?thesis using False by simp
  next
    case True
    have sh: "api_share ?pr p = (case p of (m, a', e) \<Rightarrow> \<bar>erp_amount e\<bar>) * (\<bar>api_amount a\<bar> / ?S)"
      if "p \<in> set ?mine" for p
    proof -
      obtain m a' e where pe: "p = (m, a', e)" by (cases p)
      have pa: "a' = a" using that by (auto simp: pe)
      have "api_row_id m = a_row_id a" using that id unfolding pe by blast
      then show ?thesis using True by (simp add: api_share_def pe pa)
    qed
    have "sum_list (map (api_share ?pr) ?mine)
        = sum_list (map (\<lambda>p. (case p of (m, a', e) \<Rightarrow> \<bar>erp_amount e\<bar>) * (\<bar>api_amount a\<bar> / ?S)) ?mine)"
      by (rule arg_cong[where f = sum_list], rule map_cong[OF refl]) (rule sh)
    also have "\<dots> = sum_list (map (\<lambda>p. case p of (m, a', e) \<Rightarrow> \<bar>erp_amount e\<bar>) ?mine) * (\<bar>api_amount a\<bar> / ?S)"
      by (rule sum_list_mult_const)
    also have "\<dots> = ?S * (\<bar>api_amount a\<bar> / ?S)" by (simp only: S)
    also have "\<dots> = \<bar>api_amount a\<bar>" using True by simp
    finally show ?thesis using True by simp
  qed
qed

text \<open>
  Without rounding, the shares of the matched API rows add up to their amounts, apart from
  the rows whose ERP partners total zero.
\<close>

lemma shares_total:
  assumes ids: "distinct (map a_row_id A0)"
  shows "sum_list (map (\<lambda>a. \<bar>api_amount a\<bar>) (filter (\<lambda>a. a_row_id a \<in> api_row_id ` set matches) A0))
       = sum_list (map (api_share (pair matches A0 E0)) (pair matches A0 E0))
         + sum_list (map (\<lambda>a. \<bar>api_amount a\<bar>)
             (filter (\<lambda>a. a_row_id a \<in> api_row_id ` set matches
                          \<and> sum_erp_abs (pair matches A0 E0) (a_row_id a) = 0) A0))"
proof -
  let ?pr = "pair matches A0 E0"
  let ?matched = "\<lambda>a. a_row_id a \<in> api_row_id ` set matches"
  let ?S = "\<lambda>a. sum_erp_abs ?pr (a_row_id a)"
  have dA: "distinct A0" using ids by (simp add: distinct_map)
  have "sum_list (map (api_share ?pr) ?pr)
      = (\<Sum>a \<in> set A0. sum_list (map (api_share ?pr) (filter (\<lambda>p. fst (snd p) = a) ?pr)))"
    by (rule sum_partition[symmetric]) (auto simp: set_pair)
  also have "\<dots> = (\<Sum>a \<in> set A0. if ?S a > 0 then \<bar>api_amount a\<bar> else 0)"
    by (rule sum.cong[OF refl]) (rule share_of_row[OF ids])
  finally have sh: "sum_list (map (api_share ?pr) ?pr)
      = (\<Sum>a \<in> set A0. if ?S a > 0 then \<bar>api_amount a\<bar> else 0)" .
  have z: "sum_list (map (\<lambda>a. \<bar>api_amount a\<bar>) (filter (\<lambda>a. ?matched a \<and> ?S a = 0) A0))
      = (\<Sum>a \<in> set A0. if ?matched a \<and> ?S a = 0 then \<bar>api_amount a\<bar> else 0)"
    using dA by (simp add: sum_list_map_filter' sum_list_distinct_conv_sum_set)
  have m: "sum_list (map (\<lambda>a. \<bar>api_amount a\<bar>) (filter ?matched A0))
      = (\<Sum>a \<in> set A0. if ?matched a then \<bar>api_amount a\<bar> else 0)"
    using dA by (simp add: sum_list_map_filter' sum_list_distinct_conv_sum_set)
  have "(if ?matched a then \<bar>api_amount a\<bar> else 0)
      = (if ?S a > 0 then \<bar>api_amount a\<bar> else 0)
        + (if ?matched a \<and> ?S a = 0 then \<bar>api_amount a\<bar> else 0)" for a
    using sum_erp_abs_nonneg[of ?pr "a_row_id a"] sum_erp_abs_pos_matched[of matches A0 E0 "a_row_id a"]
    by auto
  then have "(\<Sum>a \<in> set A0. if ?matched a then \<bar>api_amount a\<bar> else 0)
      = (\<Sum>a \<in> set A0. if ?S a > 0 then \<bar>api_amount a\<bar> else 0)
        + (\<Sum>a \<in> set A0. if ?matched a \<and> ?S a = 0 then \<bar>api_amount a\<bar> else 0)"
    by (simp only: sum.distrib[symmetric])
  then show ?thesis unfolding sh z m .
qed

text \<open>
  The column \<^verbatim>\<open>api_matched_abs\<close> sums the rounded shares of the rows of \<^verbatim>\<open>pair\<close> whose
  ERP row is dated in the core window.
\<close>

definition in_window :: "match_row \<times> api_row \<times> erp_row \<Rightarrow> bool" where
  "in_window p \<longleftrightarrow> erp_date (snd (snd p)) \<in> {DATE_FROM..DATE_TO}"

lemma daily_total:
  assumes rw: "\<forall>x. whole_cents (rnd x)" and rnd: "\<forall>x. whole_cents x \<longrightarrow> rnd x = x"
  shows "sum_list (map api_matched_abs (daily rnd matches A0 E0))
       = sum_list (map (\<lambda>p. rnd (api_share (pair matches A0 E0) p)) (filter in_window (pair matches A0 E0)))"
proof (cases "pair matches A0 E0 = []")
  case True
  then show ?thesis by (simp add: daily_def)
next
  case False
  let ?pr = "pair matches A0 E0"
  let ?ma = "m_api_daily rnd ?pr" and ?me = "m_erp_daily rnd matches E0"
  let ?ua = "unrec_api matches A0" and ?ue = "unrec_erp matches E0"
  let ?sp = "spine (spine_dim ?ma ?me ?ua ?ue)"
  have key: "pair_key p \<in> set ?sp \<longleftrightarrow> in_window p" if p: "p \<in> set ?pr" for p
  proof -
    obtain m a e where pe: "p = (m, a, e)" by (cases p)
    have "pair_key p \<in> fst ` set ?ma"
      using p by (simp add: m_api_daily_def group_sum_keys)
    then have "fst (pair_key p) \<in> set (spine_dim ?ma ?me ?ua ?ue)"
      unfolding set_spine_dim by force
    then show ?thesis
      unfolding set_spine in_window_def by (simp add: pe pair_key_def)
  qed
  have "sum_list (map api_matched_abs (daily rnd matches A0 E0))
      = sum_list (map (\<lambda>k. fill_null0 (map_of ?ma k)) ?sp)"
    unfolding daily_nonempty[OF False] by (simp add: comp_def api_matched_abs_daily_of)
  also have "\<dots> = sum_list (map snd (filter (\<lambda>r. fst r \<in> set ?sp) ?ma))"
  proof (rule lookup_sum_filter)
    show "distinct (map fst ?ma)" unfolding m_api_daily_def by (rule group_sum_distinct)
    show "distinct ?sp" by (rule distinct_spine) (simp add: spine_dim_def)
  qed
  also have "\<dots> = sum_list (map (api_contrib_abs rnd ?pr) (filter (\<lambda>p. pair_key p \<in> set ?sp) ?pr))"
    unfolding m_api_daily_def
    by (rule group_sum_filter_total[OF rnd]) (simp add: api_contrib_abs_def rw)
  also have "filter (\<lambda>p. pair_key p \<in> set ?sp) ?pr = filter in_window ?pr"
    by (rule filter_cong[OF refl]) (rule key)
  finally show ?thesis by (simp add: api_contrib_abs_def[abs_def])
qed

lemma ex_daily_outside:
  "sum_list (map api_matched_abs
      (daily round2 [ex_match 0 0] [ex_a 0 1000 (DATE_FROM - 1)] [ex_e 0 1000 (DATE_FROM - 1)])) = 0"
  by code_simp

lemma ex_daily_rounded:
  "sum_list (map api_matched_abs
      (daily round2 (concat (map (\<lambda>a. map (ex_match a) [0, 1, 2]) [0, 1, 2]))
         [ex_a 0 5 DATE_FROM, ex_a 1 5 DATE_FROM, ex_a 2 5 DATE_FROM]
         [ex_e 0 1 DATE_FROM, ex_e 1 1 DATE_FROM, ex_e 2 13 DATE_FROM])) = 3 / 25"
  by code_simp

lemma ex_daily_zero_partner:
  "sum_list (map api_matched_abs
      (daily round2 [ex_match 0 0, ex_match 1 0] [ex_a 0 5 DATE_FROM, ex_a 1 (- 5) DATE_FROM]
         [ex_e 0 0 DATE_FROM])) = 0"
  by code_simp

lemma ex_daily_split:
  "sum_list (map api_matched_abs
      (daily round2 [ex_match 0 0, ex_match 0 1] [ex_a 0 1000 DATE_FROM]
         [ex_e 0 400 DATE_FROM, ex_e 1 600 DATE_TO])) = 10"
  by code_simp

lemma ex_final1: "finalize_by_components [ex_match 0 0] [ex_a 0 1000 (DATE_FROM - 1)] [ex_e 0 1000 (DATE_FROM - 1)] = [ex_match 0 0]"
  by code_simp

lemma ex_final2: "finalize_by_components (concat (map (\<lambda>a. map (ex_match a) [0, 1, 2]) [0, 1, 2]))
         [ex_a 0 5 DATE_FROM, ex_a 1 5 DATE_FROM, ex_a 2 5 DATE_FROM]
         [ex_e 0 1 DATE_FROM, ex_e 1 1 DATE_FROM, ex_e 2 13 DATE_FROM] = concat (map (\<lambda>a. map (ex_match a) [0, 1, 2]) [0, 1, 2])"
  by code_simp

lemma ex_final3: "finalize_by_components [ex_match 0 0, ex_match 1 0]
         [ex_a 0 5 DATE_FROM, ex_a 1 (- 5) DATE_FROM] [ex_e 0 0 DATE_FROM] = [ex_match 0 0, ex_match 1 0]"
  by code_simp

lemma ex_pair_split:
  "pair [ex_match 0 0, ex_match 0 1] [ex_a 0 1000 DATE_FROM] [ex_e 0 400 DATE_FROM, ex_e 1 600 DATE_TO]
   = [(ex_match 0 0, ex_a 0 1000 DATE_FROM, ex_e 0 400 DATE_FROM),
      (ex_match 0 1, ex_a 0 1000 DATE_FROM, ex_e 1 600 DATE_TO)]"
  by code_simp

lemma sum_list_filter_split:
  fixes f :: "'a \<Rightarrow> rat"
  shows "sum_list (map f xs) = sum_list (map f (filter P xs)) + sum_list (map f (filter (\<lambda>x. \<not> P x) xs))"
  by (induction xs) auto

lemma matched_total_split:
  assumes rw: "\<forall>x. whole_cents (rnd x)" and rnd: "\<forall>x. whole_cents x \<longrightarrow> rnd x = x"
    and ids: "distinct (map a_row_id A0)"
  shows "sum_list (map (\<lambda>a. \<bar>api_amount a\<bar>) (filter (\<lambda>a. a_row_id a \<in> api_row_id ` set matches) A0))
       = sum_list (map api_matched_abs (daily rnd matches A0 E0))
         + sum_list (map (\<lambda>p. api_share (pair matches A0 E0) p - rnd (api_share (pair matches A0 E0) p))
             (filter in_window (pair matches A0 E0)))
         + sum_list (map (api_share (pair matches A0 E0)) (filter (\<lambda>p. \<not> in_window p) (pair matches A0 E0)))
         + sum_list (map (\<lambda>a. \<bar>api_amount a\<bar>)
             (filter (\<lambda>a. a_row_id a \<in> api_row_id ` set matches
                          \<and> sum_erp_abs (pair matches A0 E0) (a_row_id a) = 0) A0))"
proof -
  let ?pr = "pair matches A0 E0"
  have c: "sum_list (map (\<lambda>p. api_share ?pr p - rnd (api_share ?pr p)) (filter in_window ?pr))
      = sum_list (map (api_share ?pr) (filter in_window ?pr))
        - sum_list (map (\<lambda>p. rnd (api_share ?pr p)) (filter in_window ?pr))"
    by (rule sum_list_subtractf)
  have d: "sum_list (map (api_share ?pr) ?pr)
      = sum_list (map (api_share ?pr) (filter in_window ?pr))
        + sum_list (map (api_share ?pr) (filter (\<lambda>p. \<not> in_window p) ?pr))"
    by (rule sum_list_filter_split)
  note a = daily_total[OF rw rnd, of matches A0 E0]
  note b = shares_total[OF ids, of matches E0]
  show ?thesis using a b c d by linarith
qed

text \<open>
  Claim C6, as stated, fails in three ways. A match whose ERP row is dated outside the
  core window (the loaders read five days before and after it) contributes to no row of
  the spine: the API row of 10.00 below survives validation and the column
  \<^verbatim>\<open>api_matched_abs\<close> sums to 0. Each share is rounded to two decimals before it is
  summed: three API rows of 0.05, each matched to the same three ERP rows of 0.01, 0.01
  and 0.13, give the rounded shares 0.00, 0.00 and 0.04, so the column sums to 0.12 while
  the matched API rows amount to 0.15. And a matched API row whose ERP partners total zero
  gets the share 0: API rows of 0.05 and -0.05 matched to one ERP row of 0.00 form a
  balanced component, the column sums to 0 and the matched API rows amount to 0.10.
\<close>

theorem api_matched_total_lost:
  "finalize_by_components [ex_match 0 0] [ex_a 0 1000 (DATE_FROM - 1)] [ex_e 0 1000 (DATE_FROM - 1)]
     = [ex_match 0 0]
   \<and> sum_list (map api_matched_abs
        (daily round2 [ex_match 0 0] [ex_a 0 1000 (DATE_FROM - 1)] [ex_e 0 1000 (DATE_FROM - 1)])) = 0
   \<and> sum_list (map (\<lambda>a. \<bar>api_amount a\<bar>)
        (filter (\<lambda>a. a_row_id a \<in> api_row_id ` set [ex_match 0 0]) [ex_a 0 1000 (DATE_FROM - 1)])) = 10
   \<and> finalize_by_components (concat (map (\<lambda>a. map (ex_match a) [0, 1, 2]) [0, 1, 2]))
         [ex_a 0 5 DATE_FROM, ex_a 1 5 DATE_FROM, ex_a 2 5 DATE_FROM]
         [ex_e 0 1 DATE_FROM, ex_e 1 1 DATE_FROM, ex_e 2 13 DATE_FROM]
     = concat (map (\<lambda>a. map (ex_match a) [0, 1, 2]) [0, 1, 2])
   \<and> sum_list (map api_matched_abs
        (daily round2 (concat (map (\<lambda>a. map (ex_match a) [0, 1, 2]) [0, 1, 2]))
           [ex_a 0 5 DATE_FROM, ex_a 1 5 DATE_FROM, ex_a 2 5 DATE_FROM]
           [ex_e 0 1 DATE_FROM, ex_e 1 1 DATE_FROM, ex_e 2 13 DATE_FROM])) = 3 / 25
   \<and> sum_list (map (\<lambda>a. \<bar>api_amount a\<bar>)
        (filter (\<lambda>a. a_row_id a \<in> api_row_id ` set (concat (map (\<lambda>a. map (ex_match a) [0, 1, 2]) [0, 1, 2])))
           [ex_a 0 5 DATE_FROM, ex_a 1 5 DATE_FROM, ex_a 2 5 DATE_FROM])) = 3 / 20
   \<and> finalize_by_components [ex_match 0 0, ex_match 1 0]
         [ex_a 0 5 DATE_FROM, ex_a 1 (- 5) DATE_FROM] [ex_e 0 0 DATE_FROM]
     = [ex_match 0 0, ex_match 1 0]
   \<and> sum_list (map api_matched_abs
        (daily round2 [ex_match 0 0, ex_match 1 0] [ex_a 0 5 DATE_FROM, ex_a 1 (- 5) DATE_FROM]
           [ex_e 0 0 DATE_FROM])) = 0
   \<and> sum_list (map (\<lambda>a. \<bar>api_amount a\<bar>)
        (filter (\<lambda>a. a_row_id a \<in> api_row_id ` set [ex_match 0 0, ex_match 1 0])
           [ex_a 0 5 DATE_FROM, ex_a 1 (- 5) DATE_FROM])) = 1 / 10"
  unfolding ex_final1 ex_final2 ex_final3 ex_daily_outside ex_daily_rounded ex_daily_zero_partner
  by (simp add: ex_a_def ex_match_def api_amount_def)

text \<open>
  Claim C6, amended. Take the amounts as exact numbers and a rounding to whole cents that
  leaves a whole number of cents unchanged; the row ids of the API table are distinct. For
  every pipeline run, the total \<open>|amount|\<close> of the API rows that take part in at least one
  surviving match equals the sum of \<^verbatim>\<open>api_matched_abs\<close> over all rows of the daily table
  plus three amounts that the daily table does not report:
  \<^item> the differences between the proportional shares and their roundings to two decimals,
    over the matches whose ERP row is dated in \<^verbatim>\<open>[DATE_FROM, DATE_TO]\<close>;
  \<^item> the shares of the matches whose ERP row is dated outside \<^verbatim>\<open>[DATE_FROM, DATE_TO]\<close>;
  \<^item> the \<open>|amount|\<close> of the matched API rows whose ERP partners have the total
    \<open>|amount|\<close> zero (their shares are 0).

  So the sum of \<^verbatim>\<open>api_matched_abs\<close> equals the total matched API \<open>|amount|\<close> exactly when
  these three amounts add up to zero.
\<close>

theorem api_matched_total:
  assumes "\<forall>x. whole_cents (rnd x)" and "\<forall>x. whole_cents x \<longrightarrow> rnd x = x"
    and "distinct (map a_row_id A0)"
  shows "sum_list (map (\<lambda>a. \<bar>api_amount a\<bar>) (filter (\<lambda>a. a_row_id a \<in> api_row_id ` set matches) A0))
       = sum_list (map api_matched_abs (daily rnd matches A0 E0))
         + sum_list (map (\<lambda>p. api_share (pair matches A0 E0) p - rnd (api_share (pair matches A0 E0) p))
             (filter in_window (pair matches A0 E0)))
         + sum_list (map (api_share (pair matches A0 E0)) (filter (\<lambda>p. \<not> in_window p) (pair matches A0 E0)))
         + sum_list (map (\<lambda>a. \<bar>api_amount a\<bar>)
             (filter (\<lambda>a. a_row_id a \<in> api_row_id ` set matches
                          \<and> sum_erp_abs (pair matches A0 E0) (a_row_id a) = 0) A0))
     \<and> (sum_list (map api_matched_abs (daily rnd matches A0 E0))
          = sum_list (map (\<lambda>a. \<bar>api_amount a\<bar>) (filter (\<lambda>a. a_row_id a \<in> api_row_id ` set matches) A0))
        \<longleftrightarrow>
          sum_list (map (\<lambda>p. api_share (pair matches A0 E0) p - rnd (api_share (pair matches A0 E0) p))
             (filter in_window (pair matches A0 E0)))
          + sum_list (map (api_share (pair matches A0 E0)) (filter (\<lambda>p. \<not> in_window p) (pair matches A0 E0)))
          + sum_list (map (\<lambda>a. \<bar>api_amount a\<bar>)
             (filter (\<lambda>a. a_row_id a \<in> api_row_id ` set matches
                          \<and> sum_erp_abs (pair matches A0 E0) (a_row_id a) = 0) A0)) = 0)"
  using matched_total_split[OF assms, of matches E0] by auto

theorem api_matched_total_witness:
  "sum_list (map api_matched_abs
      (daily round2 [ex_match 0 0, ex_match 0 1] [ex_a 0 1000 DATE_FROM]
         [ex_e 0 400 DATE_FROM, ex_e 1 600 DATE_TO])) = 10
   \<and> sum_list (map (\<lambda>a. \<bar>api_amount a\<bar>)
        (filter (\<lambda>a. a_row_id a \<in> api_row_id ` set [ex_match 0 0, ex_match 0 1])
           [ex_a 0 1000 DATE_FROM])) = 10
   \<and> sum_list (map (\<lambda>p. api_share (pair [ex_match 0 0, ex_match 0 1] [ex_a 0 1000 DATE_FROM]
                                   [ex_e 0 400 DATE_FROM, ex_e 1 600 DATE_TO]) p
                        - round2 (api_share (pair [ex_match 0 0, ex_match 0 1] [ex_a 0 1000 DATE_FROM]
                                   [ex_e 0 400 DATE_FROM, ex_e 1 600 DATE_TO]) p))
        (filter in_window (pair [ex_match 0 0, ex_match 0 1] [ex_a 0 1000 DATE_FROM]
                                   [ex_e 0 400 DATE_FROM, ex_e 1 600 DATE_TO])))
     + sum_list (map (api_share (pair [ex_match 0 0, ex_match 0 1] [ex_a 0 1000 DATE_FROM]
                                   [ex_e 0 400 DATE_FROM, ex_e 1 600 DATE_TO]))
        (filter (\<lambda>p. \<not> in_window p) (pair [ex_match 0 0, ex_match 0 1] [ex_a 0 1000 DATE_FROM]
                                   [ex_e 0 400 DATE_FROM, ex_e 1 600 DATE_TO])))
     + sum_list (map (\<lambda>a. \<bar>api_amount a\<bar>)
        (filter (\<lambda>a. a_row_id a \<in> api_row_id ` set [ex_match 0 0, ex_match 0 1]
                     \<and> sum_erp_abs (pair [ex_match 0 0, ex_match 0 1] [ex_a 0 1000 DATE_FROM]
                                   [ex_e 0 400 DATE_FROM, ex_e 1 600 DATE_TO]) (a_row_id a) = 0)
           [ex_a 0 1000 DATE_FROM])) = 0"
proof -
  let ?M = "[ex_match 0 0, ex_match 0 1]" and ?A = "[ex_a 0 1000 DATE_FROM]"
  let ?E = "[ex_e 0 400 DATE_FROM, ex_e 1 600 DATE_TO]"
  have h1: "\<forall>x. whole_cents (round2 x)" by (simp add: whole_cents_round2)
  have h2: "\<forall>x. whole_cents x \<longrightarrow> round2 x = x" by (simp add: round2_whole_cents)
  have h3: "distinct (map a_row_id ?A)" by simp
  have r: "sum_list (map (\<lambda>a. \<bar>api_amount a\<bar>)
        (filter (\<lambda>a. a_row_id a \<in> api_row_id ` set ?M) ?A)) = 10"
    by (simp add: ex_a_def ex_match_def api_amount_def)
  from api_matched_total [OF h1 h2 h3, of ?M ?E] ex_daily_split r show ?thesis
    by (simp only:) simp
qed

end
